theory Spec2Isabelle
  imports Main
begin

section \<open>Data model of the search screen\<close>

text \<open>
  The screen is one React component, \<^verbatim>\<open>App\<close>. The repository keeps several revisions of
  it side by side: one on mock data, one with a single item list fetched for the active
  tab, one with two lists and the engine and language filters, and the most complete one,
  with the abort controller, the engine, network and tag filters and the result limit.
  The development follows the most complete revision.

  The types below are the TypeScript types \<^verbatim>\<open>ApiItem\<close>, \<^verbatim>\<open>Item\<close> and
  \<^verbatim>\<open>ApiResponse\<close>; an optional field (\<^verbatim>\<open>f?: T\<close>) is an \<open>option\<close>, \<open>None\<close> standing for
  both \<^verbatim>\<open>undefined\<close> and \<^verbatim>\<open>null\<close>, which the operators \<^verbatim>\<open>?.\<close>, \<^verbatim>\<open>??\<close> and \<^verbatim>\<open>||\<close> of the
  source do not tell apart.
\<close>

datatype document_type = Media | Playlist

datatype kind = Series | Episode

datatype tab = Tab_series | Tab_episodes

datatype engine = Al | Es

record api_item =
  ai_id :: string
  ai_externalId :: "string option"
  ai_title :: string
  ai_description :: "string option"
  ai_thumbnailUrl :: "string option"
  ai_tags :: "string list option"
  ai_documentType :: document_type

record item =
  it_id :: string
  it_kind :: kind
  it_title :: string
  it_description :: "string option"
  it_image :: string
  it_raw :: "api_item option"

text \<open>
  The envelope \<^verbatim>\<open>ApiResponse\<close>. The type declares \<^verbatim>\<open>data\<close>, \<^verbatim>\<open>results\<close> and \<^verbatim>\<open>total\<close> as
  present, but \<^verbatim>\<open>fetchOne\<close> reads them through \<^verbatim>\<open>?.\<close> and \<^verbatim>\<open>??\<close>, so each may be missing in
  what the server really sends; they are options here. The echoed \<^verbatim>\<open>engine\<close>, \<^verbatim>\<open>limit\<close> and
  \<^verbatim>\<open>page\<close> are never read.
\<close>

record api_data =
  d_engine :: string
  d_limit :: int
  d_page :: int
  d_results :: "api_item list option"
  d_total :: "int option"

record api_response =
  r_message :: string
  r_data :: "api_data option"

text \<open>The value held for the dialog is typed \<^verbatim>\<open>any\<close>: \<^verbatim>\<open>null\<close>, a raw record or an item.\<close>

datatype dialog_data = Null | Raw_record api_item | Minimal_item item

section \<open>Pure helpers\<close>

text \<open>\<^verbatim>\<open>s || d\<close> on an optional string: \<^verbatim>\<open>undefined\<close> and the empty string are falsy.\<close>

fun or_string :: "string option \<Rightarrow> string \<Rightarrow> string" where
  "or_string None d = d"
| "or_string (Some s) d = (if s = [] then d else s)"

text \<open>
  \<^verbatim>\<open>String.prototype.trim\<close>. A \<open>char\<close> is one code unit below 256; the white space and line
  terminators of ECMAScript in that range are TAB, LF, VT, FF, CR, SP and NBSP.
\<close>

definition is_white_space :: "char \<Rightarrow> bool" where
  "is_white_space c \<longleftrightarrow> of_char c \<in> {9, 10, 11, 12, 13, 32, 160 :: nat}"

definition trim :: "string \<Rightarrow> string" where
  "trim s = rev (dropWhile is_white_space (rev (dropWhile is_white_space s)))"

text \<open>\<^verbatim>\<open>Array.prototype.join\<close>.\<close>

fun join :: "string \<Rightarrow> string list \<Rightarrow> string" where
  "join sep [] = []"
| "join sep [x] = x"
| "join sep (x # y # ys) = x @ sep @ join sep (y # ys)"

text \<open>
  \<^verbatim>\<open>URLSearchParams\<close> is an ordered list of name and value pairs. \<^verbatim>\<open>set\<close> overwrites the first
  pair of that name and drops the others, or appends a new pair.
\<close>

type_synonym url_search_params = "(string \<times> string) list"

fun params_set :: "string \<Rightarrow> string \<Rightarrow> url_search_params \<Rightarrow> url_search_params" where
  "params_set k v [] = [(k, v)]"
| "params_set k v ((k', v') # ps) =
     (if k' = k then (k, v) # filter (\<lambda>p. fst p \<noteq> k) ps else (k', v') # params_set k v ps)"

section \<open>Mapping an API record to a card item\<close>

definition mapApiToItem :: "api_item \<Rightarrow> item" where
  "mapApiToItem ai =
     \<lparr> it_id = ai_id ai,
       it_kind = (if ai_documentType ai = Playlist then Series else Episode),
       it_title = ai_title ai,
       it_description = Some (or_string (ai_description ai) []),
       it_image = or_string (ai_thumbnailUrl ai) [],
       it_raw = Some ai \<rparr>"

section \<open>One request: \<^verbatim>\<open>fetchOne\<close>\<close>

definition API_BASE :: string where
  "API_BASE = ''https://mbs-dev-api.trilogyapps.com/api''"

fun engine_id :: "engine \<Rightarrow> string" where
  "engine_id Al = ''al''"
| "engine_id Es = ''es''"

fun document_type_name :: "document_type \<Rightarrow> string" where
  "document_type_name Media = ''media''"
| "document_type_name Playlist = ''playlist''"

text \<open>
  The request that \<^verbatim>\<open>fetch\<close> receives: the URL up to the question mark, the search
  parameters (the source passes them through \<^verbatim>\<open>params.toString()\<close>, the form encoding of the
  platform, which is one-to-one on the list of pairs and is not modelled), and the abort
  signal, named by the number of its controller.
\<close>

record request =
  rq_path :: string
  rq_params :: url_search_params
  rq_signal :: nat

text \<open>
  The first half of \<^verbatim>\<open>fetchOne\<close>, up to the call of \<^verbatim>\<open>fetch\<close>. The filters \<^verbatim>\<open>engine\<close>,
  \<^verbatim>\<open>language\<close> and \<^verbatim>\<open>tags\<close> are the component state the closure sees.
\<close>

definition fetchOne_request ::
  "engine \<Rightarrow> string \<Rightarrow> string list \<Rightarrow> document_type \<Rightarrow> string \<Rightarrow> nat \<Rightarrow> request" where
  "fetchOne_request eng language tags documentType qv signal =
     (let params = [];
          params = params_set ''q'' qv params;
          params = params_set ''documentType'' (document_type_name documentType) params;
          params = (if language \<noteq> [] then params_set ''network'' language params else params);
          params = (if length tags \<noteq> 0 then params_set ''tags'' (join '','' tags) params
                    else params);
          params = params_set ''limit'' ''500'' params
      in \<lparr> rq_path = API_BASE @ ''/search/'' @ engine_id eng,
           rq_params = params,
           rq_signal = signal \<rparr>)"

text \<open>
  What the network does with one request. \<^verbatim>\<open>fetch\<close> rejects only when the transport fails;
  any HTTP status resolves it, and the source never reads \<^verbatim>\<open>res.ok\<close> or \<^verbatim>\<open>res.status\<close>.
  \<^verbatim>\<open>res.json()\<close> rejects with a \<^verbatim>\<open>SyntaxError\<close> when the body is not JSON, and yields the
  parsed value otherwise (\<open>None\<close> for the JSON value \<^verbatim>\<open>null\<close>).
\<close>

datatype body = Malformed | Parsed "api_response option"

datatype network_outcome = Transport_failure | Response nat body

datatype js_error = AbortError | TypeError | SyntaxError

type_synonym fetched = "item list \<times> int"

text \<open>\<^verbatim>\<open>data?.data?.results ?? []\<close> and \<^verbatim>\<open>data?.data?.total ?? 0\<close>.\<close>

definition results_of :: "api_response option \<Rightarrow> api_item list" where
  "results_of data =
     (case data of None \<Rightarrow> []
      | Some r \<Rightarrow> (case r_data r of None \<Rightarrow> []
          | Some d \<Rightarrow> (case d_results d of None \<Rightarrow> [] | Some arr \<Rightarrow> arr)))"

definition total_of :: "api_response option \<Rightarrow> int" where
  "total_of data =
     (case data of None \<Rightarrow> 0
      | Some r \<Rightarrow> (case r_data r of None \<Rightarrow> 0
          | Some d \<Rightarrow> (case d_total d of None \<Rightarrow> 0 | Some t \<Rightarrow> t)))"

text \<open>
  The second half of \<^verbatim>\<open>fetchOne\<close>: the promise it returns, as a value. A request whose signal
  is aborted rejects with an \<^verbatim>\<open>AbortError\<close>, whatever the network would have answered (the
  Fetch standard); the pair is \<^verbatim>\<open>{ mapped, total }\<close>.
\<close>

fun fetchOne_result :: "bool \<Rightarrow> network_outcome \<Rightarrow> js_error + fetched" where
  "fetchOne_result True _ = Inl AbortError"
| "fetchOne_result False Transport_failure = Inl TypeError"
| "fetchOne_result False (Response status Malformed) = Inl SyntaxError"
| "fetchOne_result False (Response status (Parsed data)) =
     Inr (map mapApiToItem (results_of data), total_of data)"

section \<open>The component and its surroundings\<close>

text \<open>
  One run of \<^verbatim>\<open>fetchData\<close> that is suspended at \<^verbatim>\<open>await Promise.all([...])\<close>: the
  controller \<^verbatim>\<open>ac\<close> it created, whether that controller has been aborted, which of the two
  \<^verbatim>\<open>try\<close> blocks it waits in (the one for the empty query or the one for a search), and
  the results of the two \<^verbatim>\<open>fetchOne\<close> promises that have resolved so far.
\<close>

record cycle =
  cy_signal :: nat
  cy_aborted :: bool
  cy_browse :: bool
  cy_series :: "fetched option"
  cy_episodes :: "fetched option"

record counts =
  series :: int
  episodes :: int

text \<open>What \<^verbatim>\<open>await Promise.all\<close> hands back: the thrown error, or the two results.\<close>

type_synonym settlement = "js_error + fetched \<times> fetched"

text \<open>
  The state. The first block is the React state of \<^verbatim>\<open>App\<close> (\<^verbatim>\<open>useState\<close>, \<^verbatim>\<open>useRef\<close> and
  the value of \<^verbatim>\<open>useDebounce\<close>). The second block is what surrounds the component: the
  debounce timer (time left, when one is running), the clock, the number of abort
  controllers created so far, and the suspended runs of \<^verbatim>\<open>fetchData\<close>. The third block
  records what the component did, oldest first, and is never read by it: the calls of
  \<^verbatim>\<open>fetch\<close>, of \<^verbatim>\<open>console.error\<close> and of \<^verbatim>\<open>setLoading\<close> (with the controller of the
  calling run), the time at which each run started, and how each run settled.
\<close>

record app =
  q :: string
  tab :: tab
  loading :: bool
  counts :: counts
  seriesItems :: "item list"
  episodeItems :: "item list"
  abortRef :: "nat option"
  dialogOpen :: bool
  dialogData :: dialog_data
  debouncedQ :: string
  engine :: engine
  language :: string
  tags :: "string list"

  timer :: "nat option"
  now :: nat
  controllers :: nat
  pending :: "cycle list"

  fetches :: "request list"
  console :: "(string \<times> js_error) list"
  loading_calls :: "(nat \<times> bool) list"
  started :: "(nat \<times> nat) list"
  settled :: "(nat \<times> settlement) list"

definition init :: app where
  "init =
     \<lparr> q = [], tab = Tab_series, loading = False, counts = \<lparr> series = 0, episodes = 0 \<rparr>,
       seriesItems = [], episodeItems = [], abortRef = None, dialogOpen = False,
       dialogData = Null, debouncedQ = [], engine = Al, language = ''en'', tags = [],
       timer = None, now = 0, controllers = 0, pending = [],
       fetches = [], console = [], loading_calls = [], started = [], settled = [] \<rparr>"

text \<open>What is rendered: the list of the selected tab and the two tab labels.\<close>

definition visible :: "app \<Rightarrow> item list" where
  "visible s = (if tab s = Tab_series then seriesItems s else episodeItems s)"

fun displayed_count :: "app \<Rightarrow> tab \<Rightarrow> int" where
  "displayed_count s Tab_series = series (counts s)"
| "displayed_count s Tab_episodes = episodes (counts s)"

subsection \<open>Effects\<close>

definition setLoading :: "nat \<Rightarrow> bool \<Rightarrow> app \<Rightarrow> app" where
  "setLoading ac b s = s\<lparr> loading := b, loading_calls := loading_calls s @ [(ac, b)] \<rparr>"

definition fetch :: "request \<Rightarrow> app \<Rightarrow> app" where
  "fetch rq s = s\<lparr> fetches := fetches s @ [rq] \<rparr>"

definition console_error :: "string \<Rightarrow> js_error \<Rightarrow> app \<Rightarrow> app" where
  "console_error msg err s = s\<lparr> console := console s @ [(msg, err)] \<rparr>"

text \<open>\<^verbatim>\<open>AbortController.abort()\<close>: the run holding that controller's signal sees it aborted.\<close>

definition abort :: "nat \<Rightarrow> cycle list \<Rightarrow> cycle list" where
  "abort ac cs = map (\<lambda>c. if cy_signal c = ac then c\<lparr> cy_aborted := True \<rparr> else c) cs"

text \<open>Suspending at \<^verbatim>\<open>await Promise.all\<close>, both promises pending.\<close>

definition await_all :: "nat \<Rightarrow> bool \<Rightarrow> app \<Rightarrow> app" where
  "await_all ac browse s =
     s\<lparr> pending := pending s @
           [\<lparr> cy_signal = ac, cy_aborted = False, cy_browse = browse,
              cy_series = None, cy_episodes = None \<rparr>],
        started := started s @ [(now s, ac)] \<rparr>"

subsection \<open>\<^verbatim>\<open>fetchData\<close>, up to the await\<close>

text \<open>
  \<^verbatim>\<open>fetchOne\<close> runs up to its own \<^verbatim>\<open>await fetch(url, { signal })\<close> inside the call, so both
  requests are issued before \<^verbatim>\<open>fetchData\<close> suspends. The two branches are written out as
  the source has them.
\<close>

definition fetchData :: "app \<Rightarrow> app" where
  "fetchData s0 =
     (let s = (case abortRef s0 of None \<Rightarrow> s0
               | Some cur \<Rightarrow> s0\<lparr> pending := abort cur (pending s0) \<rparr>);
          ac = controllers s;
          s = s\<lparr> controllers := ac + 1, abortRef := Some ac \<rparr>;
          qv = trim (debouncedQ s)
      in if qv = [] then
           (let s = setLoading ac True s;
                s = fetch (fetchOne_request (engine s) (language s) (tags s) Playlist [] ac) s;
                s = fetch (fetchOne_request (engine s) (language s) (tags s) Media [] ac) s
            in await_all ac True s)
         else
           (let s = setLoading ac True s;
                s = fetch (fetchOne_request (engine s) (language s) (tags s) Playlist qv ac) s;
                s = fetch (fetchOne_request (engine s) (language s) (tags s) Media qv ac) s
            in await_all ac False s))"

subsection \<open>\<^verbatim>\<open>fetchData\<close>, after the await\<close>

text \<open>
  The rest of the \<^verbatim>\<open>try\<close> block, its \<^verbatim>\<open>catch\<close> and its \<^verbatim>\<open>finally\<close>, once for each branch.
  The \<^verbatim>\<open>return\<close> inside \<^verbatim>\<open>catch\<close> leaves the function through \<^verbatim>\<open>finally\<close>.
\<close>

fun resume_browse :: "nat \<Rightarrow> settlement \<Rightarrow> app \<Rightarrow> app" where
  "resume_browse ac (Inr (seriesAll, episodesAll)) s =
     (let s = s\<lparr> counts := \<lparr> series = snd seriesAll, episodes = snd episodesAll \<rparr> \<rparr>;
          s = s\<lparr> seriesItems := fst seriesAll \<rparr>;
          s = s\<lparr> episodeItems := fst episodesAll \<rparr>
      in setLoading ac False s)"
| "resume_browse ac (Inl err) s =
     (if err = AbortError then setLoading ac False s
      else
        (let s = console_error ''Fetch all failed'' err s;
             s = s\<lparr> seriesItems := [] \<rparr>;
             s = s\<lparr> episodeItems := [] \<rparr>;
             s = s\<lparr> counts := \<lparr> series = 0, episodes = 0 \<rparr> \<rparr>
         in setLoading ac False s))"

fun resume_search :: "nat \<Rightarrow> settlement \<Rightarrow> app \<Rightarrow> app" where
  "resume_search ac (Inr (seriesRes, episodesRes)) s =
     (let s = s\<lparr> counts := \<lparr> series = snd seriesRes, episodes = snd episodesRes \<rparr> \<rparr>;
          s = s\<lparr> seriesItems := fst seriesRes \<rparr>;
          s = s\<lparr> episodeItems := fst episodesRes \<rparr>
      in setLoading ac False s)"
| "resume_search ac (Inl err) s =
     (if err = AbortError then setLoading ac False s
      else
        (let s = console_error ''Search fetch failed'' err s;
             s = s\<lparr> seriesItems := [] \<rparr>;
             s = s\<lparr> episodeItems := [] \<rparr>;
             s = s\<lparr> counts := \<lparr> series = 0, episodes = 0 \<rparr> \<rparr>
         in setLoading ac False s))"

text \<open>The run with controller \<open>ac\<close> leaves the await with settlement \<open>r\<close>.\<close>

definition settle :: "cycle \<Rightarrow> settlement \<Rightarrow> app \<Rightarrow> app" where
  "settle c r s =
     (let s = s\<lparr> pending := filter (\<lambda>c'. cy_signal c' \<noteq> cy_signal c) (pending s),
                 settled := settled s @ [(cy_signal c, r)] \<rparr>
      in if cy_browse c then resume_browse (cy_signal c) r s
         else resume_search (cy_signal c) r s)"

text \<open>
  One of the two requests of a run comes back. \<^verbatim>\<open>Promise.all\<close> rejects with the first
  rejection and resolves when both promises have resolved; a request that has already
  been answered, or whose run has already left the await, changes nothing.
\<close>

fun slot :: "document_type \<Rightarrow> cycle \<Rightarrow> fetched option" where
  "slot Playlist c = cy_series c"
| "slot Media c = cy_episodes c"

fun fill :: "document_type \<Rightarrow> fetched \<Rightarrow> cycle \<Rightarrow> cycle" where
  "fill Playlist v c = c\<lparr> cy_series := Some v \<rparr>"
| "fill Media v c = c\<lparr> cy_episodes := Some v \<rparr>"

definition respond :: "nat \<Rightarrow> document_type \<Rightarrow> network_outcome \<Rightarrow> app \<Rightarrow> app" where
  "respond ac documentType net s =
     (case find (\<lambda>c. cy_signal c = ac) (pending s) of
        None \<Rightarrow> s
      | Some c \<Rightarrow>
          (if slot documentType c \<noteq> None then s
           else case fetchOne_result (cy_aborted c) net of
             Inl err \<Rightarrow> settle c (Inl err) s
           | Inr v \<Rightarrow>
               (let c' = fill documentType v c
                in case (cy_series c', cy_episodes c') of
                     (Some a, Some b) \<Rightarrow> settle c (Inr (a, b)) s
                   | _ \<Rightarrow> s\<lparr> pending :=
                             map (\<lambda>x. if cy_signal x = ac then c' else x) (pending s) \<rparr>)))"

subsection \<open>The debounce hook\<close>

text \<open>
  Modelled from the spec: the hook \<^verbatim>\<open>./hooks/useDebounce\<close>, which the component imports and
  calls as \<^verbatim>\<open>useDebounce(q, 500)\<close>, is not among the sources. The spec describes its value
  as equal to the query after no change for a quiescence window of 500 time units,
  recomputed whenever the query changes, the window starting again on every change. So a
  change of \<^verbatim>\<open>q\<close> starts the timer at the full delay, and when the delay has passed the
  debounced value becomes the query.
\<close>

definition debounce_delay :: nat where
  "debounce_delay = 500"

definition debounce_restart :: "app \<Rightarrow> app" where
  "debounce_restart s = s\<lparr> timer := Some debounce_delay \<rparr>"

subsection \<open>Events\<close>

text \<open>
  A state setter of React that is given the value already held changes nothing. The
  effect \<^verbatim>\<open>useEffect(() => { fetchData(); }, [fetchData])\<close> runs when \<^verbatim>\<open>useCallback\<close> returns
  a new function, that is, when one of \<^verbatim>\<open>debouncedQ\<close>, \<^verbatim>\<open>engine\<close>, \<^verbatim>\<open>language\<close>, \<^verbatim>\<open>tags\<close>
  differs from its value at the previous render: the strings by value, and the array
  \<^verbatim>\<open>tags\<close> by identity, so every array handed to \<^verbatim>\<open>setTags\<close> by the tag input counts as new.
  The render and the effect that follow a state change are one step here.
\<close>

definition setQ :: "string \<Rightarrow> app \<Rightarrow> app" where
  "setQ text s = (if text = q s then s else debounce_restart (s\<lparr> q := text \<rparr>))"

definition setTab :: "tab \<Rightarrow> app \<Rightarrow> app" where
  "setTab v s = s\<lparr> tab := v \<rparr>"

definition setEngine :: "engine \<Rightarrow> app \<Rightarrow> app" where
  "setEngine e s = (if e = engine s then s else fetchData (s\<lparr> engine := e \<rparr>))"

definition setLanguage :: "string \<Rightarrow> app \<Rightarrow> app" where
  "setLanguage l s = (if l = language s then s else fetchData (s\<lparr> language := l \<rparr>))"

definition setTags :: "string list \<Rightarrow> app \<Rightarrow> app" where
  "setTags v s = fetchData (s\<lparr> tags := v \<rparr>)"

definition handleCardClick :: "item \<Rightarrow> app \<Rightarrow> app" where
  "handleCardClick it s =
     (let s = s\<lparr> dialogData :=
                   (case it_raw it of Some r \<Rightarrow> Raw_record r | None \<Rightarrow> Minimal_item it) \<rparr>
      in s\<lparr> dialogOpen := True \<rparr>)"

definition handleCloseDialog :: "app \<Rightarrow> app" where
  "handleCloseDialog s = s\<lparr> dialogOpen := False \<rparr>"

text \<open>
  Modelled from the spec: the timer of the hook \<^verbatim>\<open>useDebounce\<close>, which is not among the
  sources. Time passes by \<open>d\<close> units. A running timer that reaches its delay fires on the
  way: the debounced value becomes the query. What follows is the component's own: if the
  debounced value has changed, the effect runs \<^verbatim>\<open>fetchData\<close> at that moment.
\<close>

definition tick :: "nat \<Rightarrow> app \<Rightarrow> app" where
  "tick d s =
     (case timer s of
        None \<Rightarrow> s\<lparr> now := now s + d \<rparr>
      | Some r \<Rightarrow>
          (if d < r then s\<lparr> now := now s + d, timer := Some (r - d) \<rparr>
           else
             (let s1 = s\<lparr> now := now s + r, timer := None \<rparr>;
                  s2 = (if q s1 = debouncedQ s1 then s1
                        else fetchData (s1\<lparr> debouncedQ := q s1 \<rparr>))
              in s2\<lparr> now := now s + d \<rparr>)))"

datatype event =
    SetQ string
  | SetTab tab
  | SetEngine engine
  | SetLanguage string
  | SetTags "string list"
  | CardClick item
  | CloseDialog
  | Tick nat
  | Respond nat document_type network_outcome

fun step :: "app \<Rightarrow> event \<Rightarrow> app" where
  "step s (SetQ text) = setQ text s"
| "step s (SetTab v) = setTab v s"
| "step s (SetEngine e) = setEngine e s"
| "step s (SetLanguage l) = setLanguage l s"
| "step s (SetTags v) = setTags v s"
| "step s (CardClick it) = handleCardClick it s"
| "step s CloseDialog = handleCloseDialog s"
| "step s (Tick d) = tick d s"
| "step s (Respond ac documentType net) = respond ac documentType net s"

definition run :: "app \<Rightarrow> event list \<Rightarrow> app" where
  "run s evs = foldl step s evs"

text \<open>Mounting the component runs the effect once, with the initial state.\<close>

definition mounted :: app where
  "mounted = fetchData init"

section \<open>Notions used in the statements\<close>

text \<open>The cycle that \<^verbatim>\<open>fetchData\<close> leaves suspended, and the pending cycles after the abort.\<close>

definition new_cycle :: "nat \<Rightarrow> bool \<Rightarrow> cycle" where
  "new_cycle ac browse =
     \<lparr> cy_signal = ac, cy_aborted = False, cy_browse = browse,
       cy_series = None, cy_episodes = None \<rparr>"

definition abort_current :: "app \<Rightarrow> cycle list" where
  "abort_current s = (case abortRef s of None \<Rightarrow> pending s | Some cur \<Rightarrow> abort cur (pending s))"

text \<open>The committed results: both counts and both item lists.\<close>

definition view :: "app \<Rightarrow> counts \<times> item list \<times> item list" where
  "view s = (counts s, seriesItems s, episodeItems s)"

text \<open>
  What the settlement of a cycle is expected to leave on the screen: the totals and lists
  of its two results when it succeeds, nothing when it fails.
\<close>

fun committed :: "settlement \<Rightarrow> counts \<times> item list \<times> item list" where
  "committed (Inr (seriesRes, episodesRes)) =
     (\<lparr> series = snd seriesRes, episodes = snd episodesRes \<rparr>, fst seriesRes, fst episodesRes)"
| "committed (Inl err) = (\<lparr> series = 0, episodes = 0 \<rparr>, [], [])"

text \<open>The most recently started cycle, and the cycles still waiting.\<close>

definition most_recent :: "app \<Rightarrow> nat" where
  "most_recent s = snd (last (started s))"

definition signals :: "app \<Rightarrow> nat list" where
  "signals s = map cy_signal (pending s)"

text \<open>The two requests that a cycle started in this state sends.\<close>

definition current_requests :: "app \<Rightarrow> request list" where
  "current_requests s =
     [fetchOne_request (engine s) (language s) (tags s) Playlist (trim (debouncedQ s))
        (most_recent s),
      fetchOne_request (engine s) (language s) (tags s) Media (trim (debouncedQ s))
        (most_recent s)]"

definition asked :: "app \<Rightarrow> bool" where
  "asked s \<longleftrightarrow> (\<exists>fs. fetches s = fs @ current_requests s)"

text \<open>
  The invariant of the reachable states. There is a most recent cycle; the controller in
  \<^verbatim>\<open>abortRef\<close> is its controller; the waiting cycles have different controllers; a waiting
  cycle is aborted exactly when it is not the most recent one; a cycle settles once and is
  then no longer waiting; and when the most recent cycle has settled, not by an abort, the
  screen shows what its settlement commits.
\<close>

definition wf :: "app \<Rightarrow> bool" where
  "wf s \<longleftrightarrow>
     started s \<noteq> [] \<and> controllers s = Suc (most_recent s) \<and> abortRef s = Some (most_recent s)
     \<and> distinct (signals s)
     \<and> (\<forall>c \<in> set (pending s).
           cy_signal c \<le> most_recent s \<and> (cy_aborted c \<longleftrightarrow> cy_signal c \<noteq> most_recent s))
     \<and> distinct (map fst (settled s))
     \<and> (\<forall>p \<in> set (settled s). fst p \<le> most_recent s \<and> fst p \<notin> set (signals s))
     \<and> (most_recent s \<notin> set (signals s) \<longrightarrow>
           (\<exists>r. (most_recent s, r) \<in> set (settled s) \<and> r \<noteq> Inl AbortError
                \<and> view s = committed r))"

text \<open>
  Where the results of a cycle come from: a result held by a cycle was the network's answer
  to that request of that cycle, and a settlement other than an abort is made of such
  answers.
\<close>

definition answered :: "event list \<Rightarrow> nat \<Rightarrow> document_type \<Rightarrow> fetched \<Rightarrow> bool" where
  "answered evs ac dt v \<longleftrightarrow>
     (\<exists>net. Respond ac dt net \<in> set evs \<and> fetchOne_result False net = Inr v)"

definition failed :: "event list \<Rightarrow> nat \<Rightarrow> js_error \<Rightarrow> bool" where
  "failed evs ac err \<longleftrightarrow>
     (\<exists>dt net. Respond ac dt net \<in> set evs \<and> fetchOne_result False net = Inl err)"

fun explained :: "event list \<Rightarrow> nat \<times> settlement \<Rightarrow> bool" where
  "explained evs (ac, Inl err) = (err = AbortError \<or> failed evs ac err)"
| "explained evs (ac, Inr (a, b)) = (answered evs ac Playlist a \<and> answered evs ac Media b)"

definition slots_ok :: "event list \<Rightarrow> cycle \<Rightarrow> bool" where
  "slots_ok evs c \<longleftrightarrow>
     (\<forall>dt v. slot dt c = Some v \<longrightarrow> answered evs (cy_signal c) dt v)"

definition prov :: "event list \<Rightarrow> app \<Rightarrow> bool" where
  "prov evs s \<longleftrightarrow>
     (\<forall>c \<in> set (pending s). slots_ok evs c) \<and> (\<forall>p \<in> set (settled s). explained evs p)"

text \<open>
  The last cycle that settled otherwise than by an abort, and what the screen is expected
  to show after it (nothing when there has been none).
\<close>

fun last_commit :: "(nat \<times> settlement) list \<Rightarrow> (nat \<times> settlement) option" where
  "last_commit [] = None"
| "last_commit (p # ps) =
     (case last_commit ps of
        Some p' \<Rightarrow> Some p'
      | None \<Rightarrow> if snd p = Inl AbortError then None else Some p)"

definition shown :: "(nat \<times> settlement) option \<Rightarrow> counts \<times> item list \<times> item list" where
  "shown c = (case c of None \<Rightarrow> (\<lparr> series = 0, episodes = 0 \<rparr>, [], [])
              | Some p \<Rightarrow> committed (snd p))"

text \<open>The cycles that have called \<^verbatim>\<open>setLoading(false)\<close>, in the order of the calls.\<close>

definition set_false_by :: "app \<Rightarrow> nat list" where
  "set_false_by s = map fst (filter (\<lambda>p. \<not> snd p) (loading_calls s))"

text \<open>A parsed body without the results array, and one without the total.\<close>

definition lacks_results :: "api_response option \<Rightarrow> bool" where
  "lacks_results data =
     (case data of None \<Rightarrow> True
      | Some r \<Rightarrow> (case r_data r of None \<Rightarrow> True | Some d \<Rightarrow> d_results d = None))"

definition lacks_total :: "api_response option \<Rightarrow> bool" where
  "lacks_total data =
     (case data of None \<Rightarrow> True
      | Some r \<Rightarrow> (case r_data r of None \<Rightarrow> True | Some d \<Rightarrow> d_total d = None))"

text \<open>The text that the \<^verbatim>\<open>catch\<close> block of a cycle passes to \<^verbatim>\<open>console.error\<close>.\<close>

definition failure_message :: "cycle \<Rightarrow> string" where
  "failure_message c = (if cy_browse c then ''Fetch all failed'' else ''Search fetch failed'')"

text \<open>
  A burst of typing: each text is set and some time passes before the next one is. Every
  keystroke changes the text that the input holds.
\<close>

fun typing :: "(string \<times> nat) list \<Rightarrow> event list" where
  "typing [] = []"
| "typing ((str, d) # ks) = SetQ str # Tick d # typing ks"

fun changes :: "string \<Rightarrow> string list \<Rightarrow> bool" where
  "changes cur [] = True"
| "changes cur (str # strs) = (str \<noteq> cur \<and> changes str strs)"

subsection \<open>Example data\<close>

definition record_a :: api_item where
  "record_a =
     \<lparr> ai_id = ''p1'', ai_externalId = None, ai_title = ''Better Together'',
       ai_description = None, ai_thumbnailUrl = None, ai_tags = None,
       ai_documentType = Playlist \<rparr>"

definition reply :: "api_item list \<Rightarrow> int \<Rightarrow> network_outcome" where
  "reply rs n =
     Response 200 (Parsed (Some \<lparr> r_message = ''ok'',
       r_data = Some \<lparr> d_engine = ''al'', d_limit = 500, d_page = 1,
                       d_results = Some rs, d_total = Some n \<rparr> \<rparr>))"

text \<open>
  The engine is changed while the cycle of the mount is in flight; the new cycle is
  answered first, the old one afterwards.
\<close>

definition out_of_order :: "event list" where
  "out_of_order =
     [SetEngine Es, Respond 1 Playlist (reply [] 7), Respond 1 Media (reply [] 9),
      Respond 0 Media (reply [] 5)]"

text \<open>A response with status 500 whose body is JSON without a \<^verbatim>\<open>data\<close> object.\<close>

definition server_error :: network_outcome where
  "server_error =
     Response 500 (Parsed (Some \<lparr> r_message = ''Internal Server Error'', r_data = None \<rparr>))"

text \<open>
  The query becomes \<^verbatim>\<open>faith\<close>, the debounce delay passes, and both requests of the new
  cycle are answered; the totals are larger than the numbers of records returned.
\<close>

definition faith :: "event list" where
  "faith =
     [SetQ ''faith'', Tick 500, Respond 1 Playlist (reply [record_a] 3),
      Respond 1 Media (reply [record_a, record_a] 42)]"

text \<open>The same, followed by a change of the engine whose cycle is still in flight.\<close>

definition faith_then_engine :: "event list" where
  "faith_then_engine = faith @ [SetEngine Es]"

section \<open>Properties\<close>

subsection \<open>The two halves of \<^verbatim>\<open>fetchData\<close> in closed form\<close>

lemma fetchData_eq:
  "fetchData s =
     s\<lparr> loading := True,
        abortRef := Some (controllers s),
        controllers := controllers s + 1,
        pending := abort_current s @ [new_cycle (controllers s) (trim (debouncedQ s) = [])],
        fetches := fetches s @
          [fetchOne_request (engine s) (language s) (tags s) Playlist (trim (debouncedQ s)) (controllers s),
           fetchOne_request (engine s) (language s) (tags s) Media (trim (debouncedQ s)) (controllers s)],
        loading_calls := loading_calls s @ [(controllers s, True)],
        started := started s @ [(now s, controllers s)] \<rparr>"
  by (cases "abortRef s")
     (simp_all add: fetchData_def Let_def setLoading_def fetch_def await_all_def new_cycle_def abort_current_def)

lemma resume_same: "resume_browse ac (Inr r) s = resume_search ac (Inr r) s"
  by (cases r) simp

lemma settle_eq:
  "settle c r s =
     s\<lparr> pending := filter (\<lambda>c'. cy_signal c' \<noteq> cy_signal c) (pending s),
        settled := settled s @ [(cy_signal c, r)],
        loading := False,
        loading_calls := loading_calls s @ [(cy_signal c, False)],
        counts := (if r = Inl AbortError then counts s else fst (committed r)),
        seriesItems := (if r = Inl AbortError then seriesItems s else fst (snd (committed r))),
        episodeItems := (if r = Inl AbortError then episodeItems s else snd (snd (committed r))),
        console := (case r of Inr _ \<Rightarrow> console s
                    | Inl err \<Rightarrow> if err = AbortError then console s
                        else console s @ [(if cy_browse c then ''Fetch all failed''
                                           else ''Search fetch failed'', err)]) \<rparr>"
proof (cases r)
  case (Inl err)
  then show ?thesis
    by (simp add: settle_def Let_def setLoading_def console_error_def)
next
  case (Inr p)
  then show ?thesis
    by (cases p) (simp add: settle_def Let_def setLoading_def)
qed

lemma fetchOne_result_not_abort: "fetchOne_result False net \<noteq> Inl AbortError"
proof (cases net)
  case Transport_failure
  then show ?thesis by simp
next
  case (Response status b)
  then show ?thesis by (cases b) simp_all
qed

lemma find_signal:
  "find (\<lambda>c. cy_signal c = ac) cs = Some c \<Longrightarrow> c \<in> set cs \<and> cy_signal c = ac"
  by (induction cs) (auto split: if_splits)

lemma find_signal_None:
  "find (\<lambda>c. cy_signal c = ac) cs = None \<longleftrightarrow> ac \<notin> cy_signal ` set cs"
  by (induction cs) auto

lemma respond_cases:
  obtains (ignored) "respond ac dt net s = s"
  | (rejected) c err where "c \<in> set (pending s)" "cy_signal c = ac"
      "fetchOne_result (cy_aborted c) net = Inl err" "respond ac dt net s = settle c (Inl err) s"
  | (resolved) c v a b where "c \<in> set (pending s)" "cy_signal c = ac" "\<not> cy_aborted c"
      "respond ac dt net s = settle c (Inr (a, b)) s"
      "fetchOne_result False net = Inr v" "slot dt c = None"
      "cy_series (fill dt v c) = Some a" "cy_episodes (fill dt v c) = Some b"
  | (filled) c v where "c \<in> set (pending s)" "cy_signal c = ac" "\<not> cy_aborted c"
      "respond ac dt net s =
         s\<lparr> pending := map (\<lambda>x. if cy_signal x = ac then fill dt v c else x) (pending s) \<rparr>"
      "fetchOne_result False net = Inr v" "slot dt c = None"
proof (cases "find (\<lambda>c. cy_signal c = ac) (pending s)")
  case None
  then have "respond ac dt net s = s" by (simp add: respond_def)
  then show ?thesis by (rule ignored)
next
  case (Some c)
  note c = find_signal[OF Some]
  show ?thesis
  proof (cases "slot dt c \<noteq> None")
    case True
    with Some have "respond ac dt net s = s" by (simp add: respond_def)
    then show ?thesis by (rule ignored)
  next
    case False
    show ?thesis
    proof (cases "fetchOne_result (cy_aborted c) net")
      case (Inl err)
      with Some False have "respond ac dt net s = settle c (Inl err) s"
        by (simp add: respond_def)
      with c Inl show ?thesis by (auto intro: rejected)
    next
      case (Inr v)
      then have na: "\<not> cy_aborted c" by (cases "cy_aborted c") auto
      with Inr have res: "fetchOne_result False net = Inr v" by simp
      from False have empty: "slot dt c = None" by blast
      show ?thesis
      proof (cases "cy_series (fill dt v c)")
        case None
        with Some False Inr have "respond ac dt net s =
            s\<lparr> pending := map (\<lambda>x. if cy_signal x = ac then fill dt v c else x) (pending s) \<rparr>"
          by (simp add: respond_def Let_def)
        with c na res empty show ?thesis by (auto intro: filled)
      next
        case sa: (Some a)
        show ?thesis
        proof (cases "cy_episodes (fill dt v c)")
          case None
          with Some False Inr sa have "respond ac dt net s =
              s\<lparr> pending := map (\<lambda>x. if cy_signal x = ac then fill dt v c else x) (pending s) \<rparr>"
            by (simp add: respond_def Let_def)
          with c na res empty show ?thesis by (auto intro: filled)
        next
          case sb: (Some b)
          with Some False Inr sa have "respond ac dt net s = settle c (Inr (a, b)) s"
            by (simp add: respond_def Let_def)
          with c na res empty sa sb show ?thesis by (auto intro: resolved)
        qed
      qed
    qed
  qed
qed

subsection \<open>The invariant of the reachable states\<close>

lemma most_recent_fetchData [simp]: "most_recent (fetchData s) = controllers s"
  by (simp add: fetchData_eq most_recent_def)

lemma asked_fetchData: "asked (fetchData s)"
  unfolding asked_def current_requests_def
  by (rule exI[of _ "fetches s"]) (simp add: fetchData_eq most_recent_def)

lemma signals_abort [simp]: "map cy_signal (abort cur cs) = map cy_signal cs"
  by (induction cs) (simp_all add: abort_def)

lemma signals_abort_current [simp]: "map cy_signal (abort_current s) = signals s"
  by (simp add: abort_current_def signals_def split: option.splits)

lemma abort_current_aborted:
  assumes "wf s" "c \<in> set (abort_current s)"
  shows "cy_aborted c \<and> cy_signal c \<le> most_recent s"
proof -
  from assms(1) have ref: "abortRef s = Some (most_recent s)" by (simp add: wf_def)
  from assms(2) ref obtain c0 where c0: "c0 \<in> set (pending s)"
    and c: "c = (if cy_signal c0 = most_recent s then c0\<lparr> cy_aborted := True \<rparr> else c0)"
    by (auto simp: abort_current_def abort_def)
  from assms(1) c0 have "cy_signal c0 \<le> most_recent s"
    and "cy_aborted c0 \<longleftrightarrow> cy_signal c0 \<noteq> most_recent s"
    by (auto simp: wf_def)
  with c show ?thesis by auto
qed

lemma wf_fetchData:
  assumes "wf s"
  shows "wf (fetchData s)"
proof -
  let ?t = "fetchData s"
  have mr: "most_recent ?t = controllers s" by simp
  from assms have ctl: "controllers s = Suc (most_recent s)" by (simp add: wf_def)
  have pend: "pending ?t = abort_current s @ [new_cycle (controllers s) (trim (debouncedQ s) = [])]"
    by (simp add: fetchData_eq)
  have sig: "signals ?t = signals s @ [controllers s]"
    using signals_abort_current[of s] by (simp add: signals_def pend new_cycle_def)
  from assms have old: "\<forall>i \<in> set (signals s). i \<le> most_recent s"
    by (auto simp: wf_def signals_def)
  have 1: "started ?t \<noteq> []" by (simp add: fetchData_eq)
  have 2: "controllers ?t = Suc (most_recent ?t)" by (simp add: fetchData_eq most_recent_def)
  have 3: "abortRef ?t = Some (most_recent ?t)" by (simp add: fetchData_eq most_recent_def)
  have 4: "distinct (signals ?t)"
    using assms old ctl by (auto simp: sig wf_def)
  have 5: "\<forall>c \<in> set (pending ?t).
      cy_signal c \<le> most_recent ?t \<and> (cy_aborted c \<longleftrightarrow> cy_signal c \<noteq> most_recent ?t)"
  proof
    fix c assume "c \<in> set (pending ?t)"
    then consider "c \<in> set (abort_current s)"
      | "c = new_cycle (controllers s) (trim (debouncedQ s) = [])"
      by (auto simp: pend)
    then show "cy_signal c \<le> most_recent ?t \<and> (cy_aborted c \<longleftrightarrow> cy_signal c \<noteq> most_recent ?t)"
    proof cases
      case 1
      from abort_current_aborted[OF assms 1] ctl show ?thesis by (simp add: mr)
    next
      case 2
      then show ?thesis by (simp add: mr new_cycle_def)
    qed
  qed
  have st: "settled ?t = settled s" by (simp add: fetchData_eq)
  have 6: "distinct (map fst (settled ?t))" using assms by (simp add: st wf_def)
  have 7: "\<forall>p \<in> set (settled ?t). fst p \<le> most_recent ?t \<and> fst p \<notin> set (signals ?t)"
    using assms ctl by (auto simp: st sig mr wf_def)
  have 8: "most_recent ?t \<in> set (signals ?t)" by (simp add: sig)
  from 1 2 3 4 5 6 7 8 show ?thesis unfolding wf_def by blast
qed

lemma wf_mounted: "wf mounted"
  by (simp add: wf_def mounted_def fetchData_eq most_recent_def init_def signals_def
      abort_current_def new_cycle_def)

lemma wf_settle:
  assumes wf: "wf s" and c: "c \<in> set (pending s)"
    and r: "r = Inl AbortError \<longleftrightarrow> cy_aborted c"
  shows "wf (settle c r s)"
proof -
  let ?t = "settle c r s"
  let ?ac = "cy_signal c"
  have mr: "most_recent ?t = most_recent s" by (simp add: settle_eq most_recent_def)
  have pend: "pending ?t = filter (\<lambda>c'. cy_signal c' \<noteq> ?ac) (pending s)"
    by (simp add: settle_eq)
  have sig: "signals ?t = filter (\<lambda>i. i \<noteq> ?ac) (signals s)"
    by (simp add: signals_def pend filter_map comp_def)
  have st: "settled ?t = settled s @ [(?ac, r)]" by (simp add: settle_eq)
  have vw: "view ?t = (if r = Inl AbortError then view s else committed r)"
    by (simp add: settle_eq view_def)
  from c have ac_in: "?ac \<in> set (signals s)" by (simp add: signals_def)
  from wf c have ac_le: "?ac \<le> most_recent s"
    and ab: "cy_aborted c \<longleftrightarrow> ?ac \<noteq> most_recent s"
    by (auto simp: wf_def)
  from wf ac_in have fresh: "?ac \<notin> fst ` set (settled s)" by (auto simp: wf_def)
  have 1: "started ?t \<noteq> []" using wf by (simp add: settle_eq wf_def)
  have 2: "controllers ?t = Suc (most_recent ?t)"
    using wf by (simp add: mr) (simp add: settle_eq wf_def)
  have 3: "abortRef ?t = Some (most_recent ?t)"
    using wf by (simp add: mr) (simp add: settle_eq wf_def)
  have 4: "distinct (signals ?t)" using wf by (simp add: sig wf_def)
  have 5: "\<forall>c' \<in> set (pending ?t).
      cy_signal c' \<le> most_recent ?t \<and> (cy_aborted c' \<longleftrightarrow> cy_signal c' \<noteq> most_recent ?t)"
    using wf by (auto simp: pend mr wf_def)
  have 6: "distinct (map fst (settled ?t))" using wf fresh by (simp add: st wf_def)
  have 7: "\<forall>p \<in> set (settled ?t). fst p \<le> most_recent ?t \<and> fst p \<notin> set (signals ?t)"
    using wf ac_le by (auto simp: st sig mr wf_def)
  have 8: "most_recent ?t \<notin> set (signals ?t) \<longrightarrow>
      (\<exists>r'. (most_recent ?t, r') \<in> set (settled ?t) \<and> r' \<noteq> Inl AbortError
          \<and> view ?t = committed r')"
  proof (cases "?ac = most_recent s")
    case True
    with ab r have "r \<noteq> Inl AbortError" by simp
    with True show ?thesis by (auto simp: st mr vw)
  next
    case False
    with ab r have abort: "r = Inl AbortError" by simp
    with vw have vw': "view ?t = view s" by simp
    show ?thesis
    proof
      assume "most_recent ?t \<notin> set (signals ?t)"
      with False have "most_recent s \<notin> set (signals s)" by (auto simp: sig mr)
      with wf obtain r' where "(most_recent s, r') \<in> set (settled s)" "r' \<noteq> Inl AbortError"
        "view s = committed r'" by (auto simp: wf_def)
      then have "(most_recent ?t, r') \<in> set (settled ?t) \<and> r' \<noteq> Inl AbortError
          \<and> view ?t = committed r'"
        by (simp add: st mr vw')
      then show "\<exists>r'. (most_recent ?t, r') \<in> set (settled ?t) \<and> r' \<noteq> Inl AbortError
          \<and> view ?t = committed r'" ..
    qed
  qed
  from 1 2 3 4 5 6 7 8 show ?thesis unfolding wf_def by blast
qed

lemma fetchOne_result_abort_iff:
  "fetchOne_result b net = Inl err \<Longrightarrow> (Inl err = (Inl AbortError :: settlement)) \<longleftrightarrow> b"
  using fetchOne_result_not_abort[of net] by (cases b) auto

lemma fill_fields [simp]:
  "cy_signal (fill dt v c) = cy_signal c" "cy_aborted (fill dt v c) = cy_aborted c"
  "cy_browse (fill dt v c) = cy_browse c"
  by (cases dt; simp)+

lemma wf_respond:
  assumes wf: "wf s"
  shows "wf (respond ac dt net s)"
proof (cases ac dt net s rule: respond_cases)
  case ignored
  with wf show ?thesis by simp
next
  case (rejected c err)
  from fetchOne_result_abort_iff[OF rejected(3)]
  have "(Inl err :: settlement) = Inl AbortError \<longleftrightarrow> cy_aborted c" .
  from wf_settle[OF wf rejected(1) this] rejected(4) show ?thesis by simp
next
  case (resolved c v a b)
  then have "(Inr (a, b) :: settlement) = Inl AbortError \<longleftrightarrow> cy_aborted c" by simp
  from wf_settle[OF wf resolved(1) this] resolved(4) show ?thesis by simp
next
  case (filled c v)
  let ?t = "s\<lparr> pending := map (\<lambda>x. if cy_signal x = ac then fill dt v c else x) (pending s) \<rparr>"
  have sig: "signals ?t = signals s"
    using filled(2) by (simp add: signals_def comp_def cong: map_cong)
  have mr: "most_recent ?t = most_recent s" by (simp add: most_recent_def)
  have vw: "view ?t = view s" by (simp add: view_def)
  from wf filled(1) have cp: "cy_signal c \<le> most_recent s"
    "cy_aborted c \<longleftrightarrow> cy_signal c \<noteq> most_recent s"
    by (auto simp: wf_def)
  have 5: "\<forall>c' \<in> set (pending ?t).
      cy_signal c' \<le> most_recent ?t \<and> (cy_aborted c' \<longleftrightarrow> cy_signal c' \<noteq> most_recent ?t)"
    using wf cp by (auto simp: mr wf_def)
  have rest: "started ?t \<noteq> []" "controllers ?t = Suc (most_recent ?t)"
    "abortRef ?t = Some (most_recent ?t)" "distinct (signals ?t)"
    "distinct (map fst (settled ?t))"
    "\<forall>p \<in> set (settled ?t). fst p \<le> most_recent ?t \<and> fst p \<notin> set (signals ?t)"
    using wf by (simp_all add: sig mr) (simp_all add: wf_def)
  have 8: "most_recent ?t \<notin> set (signals ?t) \<longrightarrow>
      (\<exists>r'. (most_recent ?t, r') \<in> set (settled ?t) \<and> r' \<noteq> Inl AbortError
          \<and> view ?t = committed r')"
    using wf by (simp add: sig mr vw) (simp add: wf_def)
  from rest 5 8 have "wf ?t" unfolding wf_def by blast
  with filled(4) show ?thesis by simp
qed

lemma wf_frame:
  assumes "wf s" "started t = started s" "controllers t = controllers s"
    "abortRef t = abortRef s" "pending t = pending s" "settled t = settled s"
    "counts t = counts s" "seriesItems t = seriesItems s" "episodeItems t = episodeItems s"
  shows "wf t"
  using assms by (simp add: wf_def most_recent_def signals_def view_def)

lemma wf_step:
  assumes wf: "wf s"
  shows "wf (step s e)"
proof (cases e)
  case (SetQ str)
  have "wf (setQ str s)"
    by (rule wf_frame[OF wf]) (simp_all add: setQ_def debounce_restart_def)
  with SetQ show ?thesis by simp
next
  case (SetTab v)
  have "wf (setTab v s)" by (rule wf_frame[OF wf]) (simp_all add: setTab_def)
  with SetTab show ?thesis by simp
next
  case (SetEngine e')
  have "wf (s\<lparr> engine := e' \<rparr>)" by (rule wf_frame[OF wf]) simp_all
  then have "wf (setEngine e' s)" using wf by (simp add: setEngine_def wf_fetchData)
  with SetEngine show ?thesis by simp
next
  case (SetLanguage l)
  have "wf (s\<lparr> language := l \<rparr>)" by (rule wf_frame[OF wf]) simp_all
  then have "wf (setLanguage l s)" using wf by (simp add: setLanguage_def wf_fetchData)
  with SetLanguage show ?thesis by simp
next
  case (SetTags v)
  have "wf (s\<lparr> tags := v \<rparr>)" by (rule wf_frame[OF wf]) simp_all
  then have "wf (setTags v s)" by (simp add: setTags_def wf_fetchData)
  with SetTags show ?thesis by simp
next
  case (CardClick it)
  have "wf (handleCardClick it s)"
    by (rule wf_frame[OF wf]) (simp_all add: handleCardClick_def)
  with CardClick show ?thesis by simp
next
  case CloseDialog
  have "wf (handleCloseDialog s)"
    by (rule wf_frame[OF wf]) (simp_all add: handleCloseDialog_def)
  with CloseDialog show ?thesis by simp
next
  case (Tick d)
  have "wf (tick d s)"
  proof (cases "timer s")
    case None
    have "wf (s\<lparr> now := now s + d \<rparr>)" by (rule wf_frame[OF wf]) simp_all
    with None show ?thesis by (simp add: tick_def)
  next
    case (Some r)
    show ?thesis
    proof (cases "d < r")
      case True
      have "wf (s\<lparr> now := now s + d, timer := Some (r - d) \<rparr>)"
        by (rule wf_frame[OF wf]) simp_all
      with Some True show ?thesis by (simp add: tick_def)
    next
      case False
      let ?s1 = "s\<lparr> now := now s + r, timer := None \<rparr>"
      have w1: "wf ?s1" by (rule wf_frame[OF wf]) simp_all
      have "wf (?s1\<lparr> debouncedQ := q ?s1 \<rparr>)" by (rule wf_frame[OF wf]) simp_all
      then have w2: "wf (fetchData (?s1\<lparr> debouncedQ := q ?s1 \<rparr>))" by (rule wf_fetchData)
      let ?s2 = "if q ?s1 = debouncedQ ?s1 then ?s1 else fetchData (?s1\<lparr> debouncedQ := q ?s1 \<rparr>)"
      from w1 w2 have w3: "wf ?s2" by simp
      have "wf (?s2\<lparr> now := now s + d \<rparr>)" by (rule wf_frame[OF w3]) simp_all
      with Some False show ?thesis by (simp add: tick_def Let_def)
    qed
  qed
  with Tick show ?thesis by simp
next
  case (Respond ac dt net)
  with wf show ?thesis by (simp add: wf_respond)
qed

lemma run_snoc: "run s (evs @ [e]) = step (run s evs) e"
  by (simp add: run_def)

lemma wf_run: "wf s \<Longrightarrow> wf (run s evs)"
  by (induction evs rule: rev_induct) (simp_all add: run_def wf_step)

subsection \<open>Where the results of a cycle come from\<close>

lemma answered_mono: "answered evs ac dt v \<Longrightarrow> answered (evs @ [e]) ac dt v"
  by (auto simp: answered_def)

lemma failed_mono: "failed evs ac err \<Longrightarrow> failed (evs @ [e]) ac err"
  by (auto simp: failed_def)

lemma explained_mono: "explained evs p \<Longrightarrow> explained (evs @ [e]) p"
  by (cases "(evs, p)" rule: explained.cases) (auto intro: answered_mono failed_mono)

lemma slots_ok_mono: "slots_ok evs c \<Longrightarrow> slots_ok (evs @ [e]) c"
  by (auto simp: slots_ok_def intro: answered_mono)

lemma prov_mono: "prov evs s \<Longrightarrow> prov (evs @ [e]) s"
  by (auto simp: prov_def intro: slots_ok_mono explained_mono)

lemma prov_frame:
  "prov evs s \<Longrightarrow> pending t = pending s \<Longrightarrow> settled t = settled s \<Longrightarrow> prov evs t"
  by (simp add: prov_def)

lemma slot_aborted [simp]: "slot dt (c\<lparr> cy_aborted := b \<rparr>) = slot dt c"
  by (cases dt) simp_all

lemma prov_fetchData:
  assumes "prov evs s"
  shows "prov evs (fetchData s)"
proof -
  have "slots_ok evs c" if "c \<in> set (abort_current s)" for c
  proof -
    from that obtain c0 where "c0 \<in> set (pending s)" and "c = c0 \<or> c = c0\<lparr> cy_aborted := True \<rparr>"
      by (auto simp: abort_current_def abort_def split: option.splits if_splits)
    with assms show ?thesis by (auto simp: prov_def slots_ok_def)
  qed
  moreover have "slots_ok evs (new_cycle ac b)" for ac b
  proof -
    have "slot dt (new_cycle ac b) = None" for dt by (cases dt) (simp_all add: new_cycle_def)
    then show ?thesis by (simp add: slots_ok_def)
  qed
  ultimately show ?thesis using assms by (auto simp: prov_def fetchData_eq)
qed

lemma slot_fill: "slot dt' (fill dt v c) = (if dt' = dt then Some v else slot dt' c)"
  by (cases dt; cases dt') simp_all

lemma slots_ok_fill:
  assumes "slots_ok evs c" "fetchOne_result False net = Inr v"
  shows "slots_ok (evs @ [Respond (cy_signal c) dt net]) (fill dt v c)"
  unfolding slots_ok_def
proof (intro allI impI)
  fix dt' v' assume h: "slot dt' (fill dt v c) = Some v'"
  show "answered (evs @ [Respond (cy_signal c) dt net]) (cy_signal (fill dt v c)) dt' v'"
  proof (cases "dt' = dt")
    case True
    with h have "v' = v" by (simp add: slot_fill)
    with True assms(2) show ?thesis by (auto simp: answered_def)
  next
    case False
    with h have "slot dt' c = Some v'" by (simp add: slot_fill)
    with assms(1) have "answered evs (cy_signal c) dt' v'" unfolding slots_ok_def by blast
    then show ?thesis by (simp add: answered_mono)
  qed
qed

lemma prov_respond:
  assumes p: "prov evs s"
  shows "prov (evs @ [Respond ac dt net]) (respond ac dt net s)"
proof (cases ac dt net s rule: respond_cases)
  case ignored
  with prov_mono[OF p] show ?thesis by simp
next
  case (rejected c err)
  let ?evs = "evs @ [Respond ac dt net]"
  have "explained ?evs (ac, Inl err)"
  proof (cases "cy_aborted c")
    case True
    with rejected(3) show ?thesis by simp
  next
    case False
    with rejected(3) have "failed ?evs ac err" by (auto simp: failed_def)
    then show ?thesis by simp
  qed
  with prov_mono[OF p, of "Respond ac dt net"] rejected(2,4) show ?thesis
    by (auto simp: prov_def settle_eq)
next
  case (resolved c v a b)
  let ?evs = "evs @ [Respond ac dt net]"
  from p resolved(1) have "slots_ok evs c" by (simp add: prov_def)
  from slots_ok_fill[OF this resolved(5), of dt] resolved(2)
  have ok: "slots_ok ?evs (fill dt v c)" by simp
  have sl: "slot Playlist (fill dt v c) = Some a" "slot Media (fill dt v c) = Some b"
    using resolved(7,8) by simp_all
  from ok sl(1) have "answered ?evs (cy_signal (fill dt v c)) Playlist a"
    unfolding slots_ok_def by blast
  moreover from ok sl(2) have "answered ?evs (cy_signal (fill dt v c)) Media b"
    unfolding slots_ok_def by blast
  ultimately have "answered ?evs ac Playlist a" "answered ?evs ac Media b"
    using resolved(2) by simp_all
  then have "explained ?evs (ac, Inr (a, b))" by simp
  with prov_mono[OF p, of "Respond ac dt net"] resolved(2,4) show ?thesis
    by (auto simp: prov_def settle_eq)
next
  case (filled c v)
  let ?evs = "evs @ [Respond ac dt net]"
  from p filled(1) have "slots_ok evs c" by (simp add: prov_def)
  from slots_ok_fill[OF this filled(5), of dt] filled(2)
  have ok: "slots_ok ?evs (fill dt v c)" by simp
  with prov_mono[OF p, of "Respond ac dt net"] filled(4) show ?thesis
    by (auto simp: prov_def)
qed

lemma prov_tick: 
  assumes p: "prov evs s"
  shows "prov evs (tick d s)"
proof (cases "timer s")
  case None
  with prov_frame[OF p, of "s\<lparr> now := now s + d \<rparr>"] show ?thesis by (simp add: tick_def)
next
  case (Some r)
  show ?thesis
  proof (cases "d < r")
    case True
    with Some prov_frame[OF p, of "s\<lparr> now := now s + d, timer := Some (r - d) \<rparr>"]
    show ?thesis by (simp add: tick_def)
  next
    case False
    let ?s1 = "s\<lparr> now := now s + r, timer := None \<rparr>"
    have p1: "prov evs ?s1" by (rule prov_frame[OF p]) simp_all
    have "prov evs (?s1\<lparr> debouncedQ := q ?s1 \<rparr>)" by (rule prov_frame[OF p]) simp_all
    then have p2: "prov evs (fetchData (?s1\<lparr> debouncedQ := q ?s1 \<rparr>))" by (rule prov_fetchData)
    let ?s2 = "if q ?s1 = debouncedQ ?s1 then ?s1 else fetchData (?s1\<lparr> debouncedQ := q ?s1 \<rparr>)"
    from p1 p2 have p3: "prov evs ?s2" by simp
    have "prov evs (?s2\<lparr> now := now s + d \<rparr>)" by (rule prov_frame[OF p3]) simp_all
    with Some False show ?thesis by (simp add: tick_def Let_def)
  qed
qed

lemma prov_step:
  assumes p: "prov evs s"
  shows "prov (evs @ [e]) (step s e)"
proof (cases e)
  case (Respond ac dt net)
  with prov_respond[OF p] show ?thesis by simp
next
  case (SetQ str)
  have "prov evs (setQ str s)"
    by (rule prov_frame[OF p]) (simp_all add: setQ_def debounce_restart_def)
  with SetQ show ?thesis by (simp add: prov_mono)
next
  case (SetTab v)
  have "prov evs (setTab v s)" by (rule prov_frame[OF p]) (simp_all add: setTab_def)
  with SetTab show ?thesis by (simp add: prov_mono)
next
  case (SetEngine e')
  have "prov evs (s\<lparr> engine := e' \<rparr>)" by (rule prov_frame[OF p]) simp_all
  then have "prov evs (setEngine e' s)" using p by (simp add: setEngine_def prov_fetchData)
  with SetEngine show ?thesis by (simp add: prov_mono)
next
  case (SetLanguage l)
  have "prov evs (s\<lparr> language := l \<rparr>)" by (rule prov_frame[OF p]) simp_all
  then have "prov evs (setLanguage l s)" using p by (simp add: setLanguage_def prov_fetchData)
  with SetLanguage show ?thesis by (simp add: prov_mono)
next
  case (SetTags v)
  have "prov evs (s\<lparr> tags := v \<rparr>)" by (rule prov_frame[OF p]) simp_all
  then have "prov evs (setTags v s)" by (simp add: setTags_def prov_fetchData)
  with SetTags show ?thesis by (simp add: prov_mono)
next
  case (CardClick it)
  have "prov evs (handleCardClick it s)"
    by (rule prov_frame[OF p]) (simp_all add: handleCardClick_def)
  with CardClick show ?thesis by (simp add: prov_mono)
next
  case CloseDialog
  have "prov evs (handleCloseDialog s)"
    by (rule prov_frame[OF p]) (simp_all add: handleCloseDialog_def)
  with CloseDialog show ?thesis by (simp add: prov_mono)
next
  case (Tick d)
  with prov_tick[OF p] show ?thesis by (simp add: prov_mono)
qed

lemma prov_mounted: "prov [] mounted"
  by (simp add: prov_def mounted_def fetchData_eq init_def abort_current_def new_cycle_def
      slots_ok_def) (metis document_type.exhaust slot.simps cycle.select_convs(4,5) option.distinct(1))

lemma prov_run: "prov evs (run mounted evs)"
proof (induction evs rule: rev_induct)
  case Nil
  then show ?case by (simp add: run_def prov_mounted)
next
  case (snoc e evs)
  from prov_step[OF snoc] show ?case by (simp add: run_snoc)
qed

subsection \<open>The requests of the most recent cycle\<close>

lemma asked_frame:
  assumes "asked s" "fetches t = fetches s" "started t = started s" "engine t = engine s"
    "language t = language s" "tags t = tags s" "debouncedQ t = debouncedQ s"
  shows "asked t"
  using assms by (simp add: asked_def current_requests_def most_recent_def)

lemma asked_respond:
  assumes "asked s"
  shows "asked (respond ac dt net s)"
proof (cases ac dt net s rule: respond_cases)
  case ignored
  with assms show ?thesis by simp
next
  case (rejected c err)
  have "asked (settle c (Inl err) s)" by (rule asked_frame[OF assms]) (simp_all add: settle_eq)
  with rejected(4) show ?thesis by simp
next
  case (resolved c v a b)
  have "asked (settle c (Inr (a, b)) s)" by (rule asked_frame[OF assms]) (simp_all add: settle_eq)
  with resolved(4) show ?thesis by simp
next
  case (filled c v)
  have "asked (s\<lparr> pending := map (\<lambda>x. if cy_signal x = ac then fill dt v c else x) (pending s) \<rparr>)"
    by (rule asked_frame[OF assms]) simp_all
  with filled(4) show ?thesis by simp
qed

lemma asked_tick:
  assumes "asked s"
  shows "asked (tick d s)"
proof (cases "timer s")
  case None
  have "asked (s\<lparr> now := now s + d \<rparr>)" by (rule asked_frame[OF assms]) simp_all
  with None show ?thesis by (simp add: tick_def)
next
  case (Some r)
  show ?thesis
  proof (cases "d < r")
    case True
    have "asked (s\<lparr> now := now s + d, timer := Some (r - d) \<rparr>)"
      by (rule asked_frame[OF assms]) simp_all
    with Some True show ?thesis by (simp add: tick_def)
  next
    case False
    let ?s1 = "s\<lparr> now := now s + r, timer := None \<rparr>"
    have a1: "asked ?s1" by (rule asked_frame[OF assms]) simp_all
    let ?s2 = "if q ?s1 = debouncedQ ?s1 then ?s1 else fetchData (?s1\<lparr> debouncedQ := q ?s1 \<rparr>)"
    from a1 have a2: "asked ?s2" by (simp add: asked_fetchData)
    have "asked (?s2\<lparr> now := now s + d \<rparr>)" by (rule asked_frame[OF a2]) simp_all
    with Some False show ?thesis by (simp add: tick_def Let_def)
  qed
qed

lemma asked_step:
  assumes "asked s"
  shows "asked (step s e)"
proof (cases e)
  case (SetQ str)
  have "asked (setQ str s)"
    by (rule asked_frame[OF assms]) (simp_all add: setQ_def debounce_restart_def)
  with SetQ show ?thesis by simp
next
  case (SetTab v)
  have "asked (setTab v s)" by (rule asked_frame[OF assms]) (simp_all add: setTab_def)
  with SetTab show ?thesis by simp
next
  case (SetEngine e')
  with assms show ?thesis by (simp add: setEngine_def asked_fetchData)
next
  case (SetLanguage l)
  with assms show ?thesis by (simp add: setLanguage_def asked_fetchData)
next
  case (SetTags v)
  then show ?thesis by (simp add: setTags_def asked_fetchData)
next
  case (CardClick it)
  have "asked (handleCardClick it s)"
    by (rule asked_frame[OF assms]) (simp_all add: handleCardClick_def)
  with CardClick show ?thesis by simp
next
  case CloseDialog
  have "asked (handleCloseDialog s)"
    by (rule asked_frame[OF assms]) (simp_all add: handleCloseDialog_def)
  with CloseDialog show ?thesis by simp
next
  case (Tick d)
  with asked_tick[OF assms] show ?thesis by simp
next
  case (Respond ac dt net)
  with asked_respond[OF assms] show ?thesis by simp
qed

lemma asked_run: "asked (run mounted evs)"
proof (induction evs rule: rev_induct)
  case Nil
  show ?case by (simp add: run_def mounted_def asked_fetchData)
next
  case (snoc e evs)
  then show ?case by (simp add: run_snoc asked_step)
qed

lemma wf_reachable: "wf (run mounted evs)"
  by (rule wf_run) (rule wf_mounted)

lemma stale_respond_view:
  assumes wf: "wf s" and stale: "ac \<noteq> most_recent s"
  shows "view (respond ac dt net s) = view s \<and> console (respond ac dt net s) = console s"
proof (cases ac dt net s rule: respond_cases)
  case ignored
  then show ?thesis by simp
next
  case (rejected c err)
  with wf stale have "cy_aborted c" by (auto simp: wf_def)
  with rejected(3) have "err = AbortError" by simp
  with rejected(4) show ?thesis by (simp add: settle_eq view_def)
next
  case (resolved c v a b)
  with wf stale show ?thesis by (auto simp: wf_def)
next
  case (filled c v)
  then show ?thesis by (simp add: view_def)
qed

lemma settled_current:
  assumes wf: "wf s" and gone: "most_recent s \<notin> set (signals s)"
  shows "\<exists>r. map_of (settled s) (most_recent s) = Some r \<and> r \<noteq> Inl AbortError
      \<and> view s = committed r"
proof -
  from wf gone obtain r where r: "(most_recent s, r) \<in> set (settled s)" "r \<noteq> Inl AbortError"
    "view s = committed r" by (auto simp: wf_def)
  from wf have "distinct (map fst (settled s))" by (simp add: wf_def)
  with r(1) have "map_of (settled s) (most_recent s) = Some r" by simp
  with r show ?thesis by blast
qed

subsection \<open>Answers to a waiting cycle\<close>

lemma find_distinct:
  "distinct (map cy_signal cs) \<Longrightarrow> c \<in> set cs \<Longrightarrow>
     find (\<lambda>x. cy_signal x = cy_signal c) cs = Some c"
  by (induction cs) (auto simp: image_iff)

lemma respond_pending:
  assumes "wf s" "c \<in> set (pending s)" "slot dt c = None"
  shows "respond (cy_signal c) dt net s =
     (case fetchOne_result (cy_aborted c) net of
        Inl err \<Rightarrow> settle c (Inl err) s
      | Inr v \<Rightarrow>
          (case (cy_series (fill dt v c), cy_episodes (fill dt v c)) of
             (Some a, Some b) \<Rightarrow> settle c (Inr (a, b)) s
           | _ \<Rightarrow> s\<lparr> pending := map (\<lambda>x. if cy_signal x = cy_signal c then fill dt v c else x)
                                    (pending s) \<rparr>))"
proof -
  from assms(1) have "distinct (map cy_signal (pending s))" by (simp add: wf_def signals_def)
  from find_distinct[OF this assms(2)] assms(3) show ?thesis
    by (simp add: respond_def Let_def split: sum.split)
qed

lemma respond_rejected:
  assumes "wf s" "c \<in> set (pending s)" "slot dt c = None"
    "fetchOne_result (cy_aborted c) net = Inl err"
  shows "respond (cy_signal c) dt net s = settle c (Inl err) s"
  using assms by (simp add: respond_pending)

lemma console_respond_parsed:
  "console (respond ac dt (Response status (Parsed data)) s) = console s"
proof (cases ac dt "Response status (Parsed data)" s rule: respond_cases)
  case ignored
  then show ?thesis by simp
next
  case (rejected c err)
  then have "cy_aborted c" by (cases "cy_aborted c") auto
  with rejected(3) have "err = AbortError" by simp
  with rejected(4) show ?thesis by (simp add: settle_eq)
next
  case (resolved c v a b)
  then show ?thesis by (simp add: settle_eq)
next
  case (filled c v)
  then show ?thesis by simp
qed

lemma fetchOne_result_Inr:
  assumes "fetchOne_result False net = Inr v"
  shows "\<exists>status data. net = Response status (Parsed data)
           \<and> v = (map mapApiToItem (results_of data), total_of data)"
proof (cases net)
  case Transport_failure
  with assms show ?thesis by simp
next
  case (Response status b)
  with assms show ?thesis by (cases b) auto
qed

lemma find_append_new:
  assumes "\<forall>c \<in> set cs. cy_signal c \<noteq> ac" "cy_signal n = ac"
  shows "find (\<lambda>c. cy_signal c = ac) (cs @ [n]) = Some n"
  using assms by (induction cs) auto

lemma pending_fetchData_find:
  assumes "wf s"
  shows "find (\<lambda>c. cy_signal c = controllers s) (pending (fetchData s))
      = Some (new_cycle (controllers s) (trim (debouncedQ s) = []))"
proof -
  have "cy_signal c \<noteq> controllers s" if "c \<in> set (abort_current s)" for c
    using abort_current_aborted[OF assms that] assms by (simp add: wf_def)
  then show ?thesis
    by (simp add: fetchData_eq find_append_new new_cycle_def)
qed

lemma map_replace_new:
  assumes "\<forall>c \<in> set cs. cy_signal c \<noteq> ac" "cy_signal n = ac"
  shows "map (\<lambda>x. if cy_signal x = ac then n' else x) (cs @ [n]) = cs @ [n']"
  using assms by (induction cs) auto

lemma respond_first:
  assumes wf: "wf s" and c: "c \<in> set (pending s)" and na: "\<not> cy_aborted c"
    and e: "cy_series c = None" "cy_episodes c = None"
  shows "respond (cy_signal c) Playlist (Response st (Parsed d)) s =
     s\<lparr> pending := map (\<lambda>x. if cy_signal x = cy_signal c
                                then c\<lparr> cy_series := Some (map mapApiToItem (results_of d), total_of d) \<rparr>
                                else x) (pending s) \<rparr>"
proof -
  have "slot Playlist c = None" using e by simp
  from respond_pending[OF wf c this, of "Response st (Parsed d)"] na e show ?thesis by simp
qed

lemma respond_second:
  assumes wf: "wf s" and c: "c \<in> set (pending s)" and na: "\<not> cy_aborted c"
    and e: "cy_series c = Some a" "cy_episodes c = None"
  shows "respond (cy_signal c) Media (Response st (Parsed d)) s =
     settle c (Inr (a, (map mapApiToItem (results_of d), total_of d))) s"
proof -
  have "slot Media c = None" using e by simp
  from respond_pending[OF wf c this, of "Response st (Parsed d)"] na e show ?thesis by simp
qed

lemma fetchData_then_both_answers:
  assumes wf: "wf s"
  shows "view (respond (controllers s) Media (Response st2 (Parsed d2))
            (respond (controllers s) Playlist (Response st1 (Parsed d1)) (fetchData s)))
         = (\<lparr> series = total_of d1, episodes = total_of d2 \<rparr>,
            map mapApiToItem (results_of d1), map mapApiToItem (results_of d2))"
proof -
  let ?ac = "controllers s"
  let ?t = "fetchData s"
  let ?n = "new_cycle ?ac (trim (debouncedQ s) = [])"
  let ?a = "(map mapApiToItem (results_of d1), total_of d1)"
  let ?b = "(map mapApiToItem (results_of d2), total_of d2)"
  let ?n' = "?n\<lparr> cy_series := Some ?a \<rparr>"
  have n: "cy_signal ?n = ?ac" "\<not> cy_aborted ?n" "cy_series ?n = None" "cy_episodes ?n = None"
    by (simp_all add: new_cycle_def)
  have n': "cy_signal ?n' = ?ac" "\<not> cy_aborted ?n'" "cy_series ?n' = Some ?a"
    "cy_episodes ?n' = None"
    by (simp_all add: new_cycle_def)
  have "cy_signal c \<noteq> ?ac" if "c \<in> set (abort_current s)" for c
    using abort_current_aborted[OF wf that] wf by (simp add: wf_def)
  then have old: "\<forall>c \<in> set (abort_current s). cy_signal c \<noteq> ?ac" by blast
  have pend: "pending ?t = abort_current s @ [?n]" by (simp add: fetchData_eq)
  have wt: "wf ?t" by (rule wf_fetchData[OF wf])
  have in_t: "?n \<in> set (pending ?t)" by (simp add: pend)
  let ?s1 = "respond ?ac Playlist (Response st1 (Parsed d1)) ?t"
  have "respond (cy_signal ?n) Playlist (Response st1 (Parsed d1)) ?t =
      ?t\<lparr> pending := map (\<lambda>x. if cy_signal x = cy_signal ?n then ?n' else x) (pending ?t) \<rparr>"
    by (rule respond_first[OF wt in_t n(2) n(3) n(4)])
  then have s1: "?s1 = ?t\<lparr> pending := map (\<lambda>x. if cy_signal x = ?ac then ?n' else x) (pending ?t) \<rparr>"
    by (simp only: n(1))
  have "map (\<lambda>x. if cy_signal x = ?ac then ?n' else x) (pending ?t) = abort_current s @ [?n']"
    unfolding pend by (rule map_replace_new[OF old n(1)])
  with s1 have s1': "?s1 = ?t\<lparr> pending := abort_current s @ [?n'] \<rparr>" by (simp only:)
  have w1: "wf ?s1" by (rule wf_respond[OF wt])
  have in_1: "?n' \<in> set (pending ?s1)" by (simp add: s1')
  have "respond (cy_signal ?n') Media (Response st2 (Parsed d2)) ?s1 = settle ?n' (Inr (?a, ?b)) ?s1"
    by (rule respond_second[OF w1 in_1 n'(2) n'(3) n'(4)])
  then have "respond ?ac Media (Response st2 (Parsed d2)) ?s1 = settle ?n' (Inr (?a, ?b)) ?s1"
    by (simp only: n'(1))
  then show ?thesis by (simp add: settle_eq view_def)
qed

subsection \<open>A burst of typing\<close>

lemma run_Cons: "run s (e # evs) = run (step s e) evs"
  by (simp add: run_def)

lemma typing_quiet:
  assumes "changes (q s) (map fst ks @ [str])" "\<forall>d \<in> set (map snd ks). d < debounce_delay"
  shows "started (run s (typing ks @ [SetQ str])) = started s
       \<and> fetches (run s (typing ks @ [SetQ str])) = fetches s
       \<and> controllers (run s (typing ks @ [SetQ str])) = controllers s
       \<and> timer (run s (typing ks @ [SetQ str])) = Some debounce_delay
       \<and> q (run s (typing ks @ [SetQ str])) = str
       \<and> debouncedQ (run s (typing ks @ [SetQ str])) = debouncedQ s
       \<and> now (run s (typing ks @ [SetQ str])) = now s + sum_list (map snd ks)"
  using assms
proof (induction ks arbitrary: s)
  case Nil
  then show ?case by (simp add: run_def setQ_def debounce_restart_def)
next
  case (Cons k ks)
  obtain str0 d0 where k: "k = (str0, d0)" by (cases k)
  let ?s' = "tick d0 (setQ str0 s)"
  from Cons.prems k have ne: "str0 \<noteq> q s" and d0: "d0 < debounce_delay" by simp_all
  then have s': "?s' = s\<lparr> q := str0, now := now s + d0, timer := Some (debounce_delay - d0) \<rparr>"
    by (simp add: setQ_def debounce_restart_def tick_def)
  from Cons.prems k s' have "changes (q ?s') (map fst ks @ [str])"
    "\<forall>d \<in> set (map snd ks). d < debounce_delay" by simp_all
  from Cons.IH[OF this] have
    "started (run ?s' (typing ks @ [SetQ str])) = started ?s'
       \<and> fetches (run ?s' (typing ks @ [SetQ str])) = fetches ?s'
       \<and> controllers (run ?s' (typing ks @ [SetQ str])) = controllers ?s'
       \<and> timer (run ?s' (typing ks @ [SetQ str])) = Some debounce_delay
       \<and> q (run ?s' (typing ks @ [SetQ str])) = str
       \<and> debouncedQ (run ?s' (typing ks @ [SetQ str])) = debouncedQ ?s'
       \<and> now (run ?s' (typing ks @ [SetQ str])) = now ?s' + sum_list (map snd ks)" .
  moreover have "run s (typing (k # ks) @ [SetQ str]) = run ?s' (typing ks @ [SetQ str])"
    by (simp add: k run_Cons)
  moreover have "started ?s' = started s" "fetches ?s' = fetches s" "controllers ?s' = controllers s"
    "debouncedQ ?s' = debouncedQ s" "now ?s' = now s + d0"
    by (simp_all add: s')
  ultimately show ?case by (simp add: k)
qed

lemma started_timer_fires:
  assumes "timer s = Some debounce_delay"
  shows "started (tick d s) =
     (if d < debounce_delay \<or> q s = debouncedQ s then started s
      else started s @ [(now s + debounce_delay, controllers s)])"
  using assms by (simp add: tick_def Let_def fetchData_eq)

subsection \<open>The record held for the dialog\<close>

lemma dialogData_respond: "dialogData (respond ac dt net s) = dialogData s"
proof (cases ac dt net s rule: respond_cases)
  case ignored
  then show ?thesis by simp
next
  case (rejected c err)
  then show ?thesis by (simp add: settle_eq)
next
  case (resolved c v a b)
  then show ?thesis by (simp add: settle_eq)
next
  case (filled c v)
  then show ?thesis by simp
qed

lemma dialogData_tick: "dialogData (tick d s) = dialogData s"
  by (simp add: tick_def Let_def fetchData_eq split: option.splits)

lemma dialogData_step:
  assumes "\<forall>it. e \<noteq> CardClick it"
  shows "dialogData (step s e) = dialogData s"
proof (cases e)
  case (CardClick it)
  with assms show ?thesis by simp
qed (simp_all add: setQ_def debounce_restart_def setTab_def setEngine_def setLanguage_def
      setTags_def handleCloseDialog_def fetchData_eq dialogData_tick dialogData_respond)

subsection \<open>What the screen shows\<close>

lemma last_commit_snoc:
  "last_commit (ps @ [p]) = (if snd p = Inl AbortError then last_commit ps else Some p)"
  by (induction ps) (auto split: option.splits)

lemma last_commit_mem: "last_commit ps = Some p \<Longrightarrow> p \<in> set ps \<and> snd p \<noteq> Inl AbortError"
  by (induction ps) (auto split: option.splits if_splits)

lemma shown_frame:
  assumes "view s = shown (last_commit (settled s))" "settled t = settled s"
    "counts t = counts s" "seriesItems t = seriesItems s" "episodeItems t = episodeItems s"
  shows "view t = shown (last_commit (settled t))"
  using assms by (simp add: view_def)

lemma shown_settle:
  assumes "view s = shown (last_commit (settled s))"
  shows "view (settle c r s) = shown (last_commit (settled (settle c r s)))"
  using assms by (simp add: settle_eq view_def last_commit_snoc shown_def)

lemma shown_respond:
  assumes "view s = shown (last_commit (settled s))"
  shows "view (respond ac dt net s) = shown (last_commit (settled (respond ac dt net s)))"
proof (cases ac dt net s rule: respond_cases)
  case ignored
  with assms show ?thesis by simp
next
  case (rejected c err)
  with shown_settle[OF assms] show ?thesis by simp
next
  case (resolved c v a b)
  with shown_settle[OF assms] show ?thesis by simp
next
  case (filled c v)
  have "view (s\<lparr> pending := map (\<lambda>x. if cy_signal x = ac then fill dt v c else x) (pending s) \<rparr>)
      = shown (last_commit (settled (s\<lparr> pending :=
          map (\<lambda>x. if cy_signal x = ac then fill dt v c else x) (pending s) \<rparr>)))"
    by (rule shown_frame[OF assms]) simp_all
  with filled(4) show ?thesis by simp
qed

lemma step_keeps_view:
  assumes "\<forall>ac dt net. e \<noteq> Respond ac dt net"
  shows "view (step s e) = view s \<and> settled (step s e) = settled s"
proof (cases e)
  case (Respond ac dt net)
  with assms show ?thesis by simp
next
  case (Tick d)
  then show ?thesis
    by (simp add: tick_def Let_def fetchData_eq view_def split: option.splits)
qed (simp_all add: setQ_def debounce_restart_def setTab_def setEngine_def setLanguage_def
      setTags_def handleCardClick_def handleCloseDialog_def fetchData_eq view_def)

lemma shown_step:
  assumes "view s = shown (last_commit (settled s))"
  shows "view (step s e) = shown (last_commit (settled (step s e)))"
proof (cases "\<exists>ac dt net. e = Respond ac dt net")
  case True
  with shown_respond[OF assms] show ?thesis by auto
next
  case False
  then have "view (step s e) = view s \<and> settled (step s e) = settled s"
    by (intro step_keeps_view) blast
  with assms show ?thesis by simp
qed

lemma shown_run: "view (run mounted evs) = shown (last_commit (settled (run mounted evs)))"
proof (induction evs rule: rev_induct)
  case Nil
  show ?case by (simp add: run_def mounted_def fetchData_eq init_def view_def shown_def)
next
  case (snoc e evs)
  then show ?case by (simp add: run_snoc shown_step)
qed

subsection \<open>Unfolding the model on concrete inputs\<close>

lemmas app_defs =
  run_def mounted_def init_def fetchData_def setLoading_def fetch_def console_error_def abort_def
  await_all_def settle_def respond_def debounce_delay_def debounce_restart_def setQ_def setTab_def
  setEngine_def setLanguage_def setTags_def handleCardClick_def handleCloseDialog_def tick_def
  trim_def is_white_space_def fetchOne_request_def API_BASE_def results_of_def total_of_def
  mapApiToItem_def Let_def view_def most_recent_def signals_def visible_def

lemma after_faith:
  "settled (run mounted faith_then_engine) =
     [(1, Inr (([mapApiToItem record_a], 3), ([mapApiToItem record_a, mapApiToItem record_a], 42)))]"
  "signals (run mounted faith_then_engine) = [0, 2]"
  by (simp_all add: app_defs faith_then_engine_def faith_def reply_def del: mapApiToItem_def)

subsection \<open>Superseded cycles\<close>

text \<open>
  Claim C1. For every sequence of events after the mount, in whatever order the answers of
  the network arrive: an answer to a cycle other than the most recently started one never
  changes the item lists or the counts; once the most recently started cycle has left its
  await (so in particular when no cycle is pending any more), the item lists and counts are
  exactly what the settlement of that cycle commits, that settlement is not an abort and is
  made of the network's answers to that cycle's own two requests; and those two requests
  are the ones built from the current debounced query, trimmed, and the current filters.
  The loading flag is not part of this statement; claim C7 is about it.
\<close>

theorem superseded_cycles_never_commit:
  "let s = run mounted evs in
     (\<forall>ac dt net. ac \<noteq> most_recent s \<longrightarrow> view (respond ac dt net s) = view s)
     \<and> (most_recent s \<notin> set (signals s) \<longrightarrow>
          (\<exists>r. map_of (settled s) (most_recent s) = Some r \<and> r \<noteq> Inl AbortError
               \<and> explained evs (most_recent s, r) \<and> view s = committed r))
     \<and> (\<exists>fs. fetches s = fs @ current_requests s)"
proof -
  let ?s = "run mounted evs"
  have wf: "wf ?s" by (rule wf_reachable)
  have a: "\<forall>ac dt net. ac \<noteq> most_recent ?s \<longrightarrow> view (respond ac dt net ?s) = view ?s"
    using stale_respond_view[OF wf] by blast
  have b: "most_recent ?s \<notin> set (signals ?s) \<longrightarrow>
          (\<exists>r. map_of (settled ?s) (most_recent ?s) = Some r \<and> r \<noteq> Inl AbortError
               \<and> explained evs (most_recent ?s, r) \<and> view ?s = committed r)"
  proof
    assume "most_recent ?s \<notin> set (signals ?s)"
    from settled_current[OF wf this] obtain r
      where r: "map_of (settled ?s) (most_recent ?s) = Some r" "r \<noteq> Inl AbortError"
        "view ?s = committed r" by blast
    from r(1) have "(most_recent ?s, r) \<in> set (settled ?s)" by (rule map_of_SomeD)
    with prov_run[of evs] have "explained evs (most_recent ?s, r)" by (auto simp: prov_def)
    with r show "\<exists>r. map_of (settled ?s) (most_recent ?s) = Some r \<and> r \<noteq> Inl AbortError
               \<and> explained evs (most_recent ?s, r) \<and> view ?s = committed r" by blast
  qed
  have c: "\<exists>fs. fetches ?s = fs @ current_requests ?s"
    using asked_run[of evs] by (simp add: asked_def)
  from a b c show ?thesis by (simp add: Let_def)
qed

theorem superseded_cycles_never_commit_witness:
  "let s = run mounted out_of_order in
     0 \<noteq> most_recent s \<and> view (respond 0 Playlist (reply [record_a] 1) s) = view s
     \<and> most_recent s \<notin> set (signals s)
     \<and> view s = committed (Inr (([], 7), ([], 9)))"
  using superseded_cycles_never_commit[of out_of_order]
  by (simp add: app_defs out_of_order_def reply_def)

subsection \<open>Failed cycles\<close>

text \<open>
  Claim C2, as amended. In every reachable state, for every cycle still waiting and every
  request of it not yet answered: if the cycle has been aborted, any answer leaves the item
  lists, the counts and the console as they are; if it has not, a transport failure
  (\<^verbatim>\<open>fetch\<close> rejects) and a body that is not JSON (\<^verbatim>\<open>res.json()\<close> rejects), under any HTTP
  status, each clear both item lists, set both counts to 0 and pass the error to
  \<^verbatim>\<open>console.error\<close>. The HTTP status is never read: a response whose body parses, with
  whatever status, logs nothing and gives that request the result built from the body.
\<close>

theorem failed_cycle_clears_and_logs:
  assumes "s = run mounted evs" and "c \<in> set (pending s)" and "slot dt c = None"
  shows "(cy_aborted c \<longrightarrow>
          (\<forall>net. view (respond (cy_signal c) dt net s) = view s
               \<and> console (respond (cy_signal c) dt net s) = console s))
     \<and> (\<not> cy_aborted c \<longrightarrow>
          view (respond (cy_signal c) dt Transport_failure s)
            = (\<lparr> series = 0, episodes = 0 \<rparr>, [], [])
        \<and> console (respond (cy_signal c) dt Transport_failure s)
            = console s @ [(failure_message c, TypeError)]
        \<and> (\<forall>status.
              view (respond (cy_signal c) dt (Response status Malformed) s)
                = (\<lparr> series = 0, episodes = 0 \<rparr>, [], [])
            \<and> console (respond (cy_signal c) dt (Response status Malformed) s)
                = console s @ [(failure_message c, SyntaxError)]))
     \<and> (\<forall>status data.
           console (respond (cy_signal c) dt (Response status (Parsed data)) s) = console s
         \<and> fetchOne_result False (Response status (Parsed data))
             = Inr (map mapApiToItem (results_of data), total_of data))"
proof -
  from assms(1) have wf: "wf s" by (simp add: wf_reachable)
  note c = assms(2) and empty = assms(3)
  have 1: "view (respond (cy_signal c) dt net s) = view s
      \<and> console (respond (cy_signal c) dt net s) = console s" if "cy_aborted c" for net
  proof -
    from that have "fetchOne_result (cy_aborted c) net = Inl AbortError" by simp
    from respond_rejected[OF wf c empty this] show ?thesis by (simp add: settle_eq view_def)
  qed
  have 2: "view (respond (cy_signal c) dt net s) = (\<lparr> series = 0, episodes = 0 \<rparr>, [], [])
      \<and> console (respond (cy_signal c) dt net s) = console s @ [(failure_message c, err)]"
    if "\<not> cy_aborted c" "fetchOne_result False net = Inl err" for net err
  proof -
    from that have r: "fetchOne_result (cy_aborted c) net = Inl err" by simp
    from that(2) fetchOne_result_not_abort[of net] have "err \<noteq> AbortError" by auto
    with respond_rejected[OF wf c empty r] show ?thesis
      by (simp add: settle_eq view_def failure_message_def)
  qed
  have 3: "fetchOne_result False Transport_failure = Inl TypeError"
    "fetchOne_result False (Response status Malformed) = Inl SyntaxError" for status
    by simp_all
  have 4: "fetchOne_result False (Response status (Parsed data))
      = Inr (map mapApiToItem (results_of data), total_of data)" for status data
    by simp
  from 1 2[OF _ 3(1)] 2[OF _ 3(2)] 4 show ?thesis
    by (intro allI impI conjI) (blast intro: console_respond_parsed)+
qed

lemma pending_after_engine_change:
  "pending (run mounted [SetEngine Es]) =
     [(new_cycle 0 True)\<lparr> cy_aborted := True \<rparr>, new_cycle 1 True]"
  by (simp add: app_defs new_cycle_def)

theorem failed_cycle_clears_and_logs_witness:
  "(new_cycle 0 True)\<lparr> cy_aborted := True \<rparr> \<in> set (pending (run mounted [SetEngine Es]))
   \<and> view (respond 0 Media Transport_failure (run mounted [SetEngine Es]))
       = view (run mounted [SetEngine Es])
   \<and> console (respond 0 Media Transport_failure (run mounted [SetEngine Es]))
       = console (run mounted [SetEngine Es])
   \<and> new_cycle 1 True \<in> set (pending (run mounted [SetEngine Es]))
   \<and> slot Media (new_cycle 1 True) = None
   \<and> \<not> cy_aborted (new_cycle 1 True)
   \<and> view (respond 1 Media (Response 502 Malformed) (run mounted [SetEngine Es]))
       = (\<lparr> series = 0, episodes = 0 \<rparr>, [], [])
   \<and> console (respond 1 Media (Response 502 Malformed) (run mounted [SetEngine Es]))
       = console (run mounted [SetEngine Es]) @ [(''Fetch all failed'', SyntaxError)]"
proof -
  have a: "new_cycle 1 True \<in> set (pending (run mounted [SetEngine Es]))"
    by (simp add: pending_after_engine_change)
  have b: "slot Media (new_cycle 1 True) = None" by (simp add: new_cycle_def)
  have c: "\<not> cy_aborted (new_cycle 1 True)" by (simp add: new_cycle_def)
  have d: "cy_signal (new_cycle 1 True) = 1" "failure_message (new_cycle 1 True) = ''Fetch all failed''"
    by (simp_all add: new_cycle_def failure_message_def)
  let ?c0 = "(new_cycle 0 True)\<lparr> cy_aborted := True \<rparr>"
  have a0: "?c0 \<in> set (pending (run mounted [SetEngine Es]))"
    by (simp add: pending_after_engine_change)
  have b0: "slot Media ?c0 = None" by (simp add: new_cycle_def)
  have d0: "cy_signal ?c0 = 0" "cy_aborted ?c0" by (simp_all add: new_cycle_def)
  from failed_cycle_clears_and_logs[OF refl a b] failed_cycle_clears_and_logs[OF refl a0 b0]
    c d a b a0 d0
  show ?thesis by simp
qed


text \<open>
  The claim as stated fails for a non-2xx status: the playlist request is answered with
  one record, the media request with status 500 and a JSON body. The cycle completes as a
  success, the series list and count are kept and nothing is logged.
\<close>

theorem non_2xx_response_is_not_a_failure:
  "let s = run mounted [Respond 0 Playlist (reply [record_a] 1), Respond 0 Media server_error] in
     pending s = [] \<and> seriesItems s \<noteq> [] \<and> series (counts s) \<noteq> 0 \<and> console s = []"
  by (simp add: app_defs reply_def server_error_def)

subsection \<open>Tab counts\<close>

text \<open>
  Claim C3. After every sequence of events, whenever the last cycle that completed (that
  settled otherwise than by an abort) completed successfully, the count shown on each tab is
  the \<^verbatim>\<open>total\<close> field (0 when the field is missing) of the response that the API gave to
  that cycle's request for that category, and the item lists are the mapped records of
  those responses. This holds until another cycle completes, so also while a later cycle
  is in flight. The count is the returned total, not the length of the held list: in the
  witness the totals are 3 and 42 and the lists hold 1 and 2 items.
\<close>

theorem counts_are_api_totals:
  assumes "s = run mounted evs"
    and "last_commit (settled s) = Some (i, Inr (a, b))"
  shows "\<exists>st1 d1 st2 d2.
           Respond i Playlist (Response st1 (Parsed d1)) \<in> set evs
         \<and> Respond i Media (Response st2 (Parsed d2)) \<in> set evs
         \<and> displayed_count s Tab_series = total_of d1
         \<and> displayed_count s Tab_episodes = total_of d2
         \<and> seriesItems s = map mapApiToItem (results_of d1)
         \<and> episodeItems s = map mapApiToItem (results_of d2)"
proof -
  from last_commit_mem[OF assms(2)] have mem: "(i, Inr (a, b)) \<in> set (settled s)" by simp
  from shown_run[of evs] assms have v: "view s = committed (Inr (a, b))" by (simp add: shown_def)
  from prov_run[of evs] mem assms(1) have "explained evs (i, Inr (a, b))"
    by (auto simp: prov_def)
  then obtain n1 n2 where n1: "Respond i Playlist n1 \<in> set evs"
      "fetchOne_result False n1 = Inr a"
    and n2: "Respond i Media n2 \<in> set evs" "fetchOne_result False n2 = Inr b"
    by (auto simp: answered_def)
  from fetchOne_result_Inr[OF n1(2)] obtain st1 d1 where 1: "n1 = Response st1 (Parsed d1)"
    "a = (map mapApiToItem (results_of d1), total_of d1)" by blast
  from fetchOne_result_Inr[OF n2(2)] obtain st2 d2 where 2: "n2 = Response st2 (Parsed d2)"
    "b = (map mapApiToItem (results_of d2), total_of d2)" by blast
  from v 1(2) 2(2) have "displayed_count s Tab_series = total_of d1"
    "displayed_count s Tab_episodes = total_of d2"
    "seriesItems s = map mapApiToItem (results_of d1)"
    "episodeItems s = map mapApiToItem (results_of d2)"
    by (simp_all add: view_def)
  with n1(1) n2(1) 1(1) 2(1) show ?thesis by blast
qed

theorem counts_are_api_totals_witness:
  "last_commit (settled (run mounted faith_then_engine)) =
     Some (1, Inr (([mapApiToItem record_a], 3), ([mapApiToItem record_a, mapApiToItem record_a], 42)))
   \<and> signals (run mounted faith_then_engine) = [0, 2]
   \<and> displayed_count (run mounted faith_then_engine) Tab_series = 3
   \<and> displayed_count (run mounted faith_then_engine) Tab_episodes = 42
   \<and> length (seriesItems (run mounted faith_then_engine)) = 1
   \<and> length (episodeItems (run mounted faith_then_engine)) = 2"
proof -
  let ?s = "run mounted faith_then_engine"
  have m: "last_commit (settled ?s) =
     Some (1, Inr (([mapApiToItem record_a], 3), ([mapApiToItem record_a, mapApiToItem record_a], 42)))"
    by (simp add: after_faith)
  from counts_are_api_totals[OF refl m] obtain st1 d1 st2 d2 where
    r: "Respond 1 Playlist (Response st1 (Parsed d1)) \<in> set faith_then_engine"
       "Respond 1 Media (Response st2 (Parsed d2)) \<in> set faith_then_engine"
    and c: "displayed_count ?s Tab_series = total_of d1"
       "displayed_count ?s Tab_episodes = total_of d2"
       "seriesItems ?s = map mapApiToItem (results_of d1)"
       "episodeItems ?s = map mapApiToItem (results_of d2)"
    by blast
  from r have "d1 = Some \<lparr> r_message = ''ok'', r_data = Some \<lparr> d_engine = ''al'', d_limit = 500,
      d_page = 1, d_results = Some [record_a], d_total = Some 3 \<rparr> \<rparr>"
    "d2 = Some \<lparr> r_message = ''ok'', r_data = Some \<lparr> d_engine = ''al'', d_limit = 500,
      d_page = 1, d_results = Some [record_a, record_a], d_total = Some 42 \<rparr> \<rparr>"
    by (simp_all add: faith_then_engine_def faith_def reply_def)
  with c m show ?thesis by (simp add: total_of_def results_of_def after_faith)
qed

subsection \<open>Debounce\<close>

text \<open>
  Claim C4, as amended. Only the query is debounced. For every state and every burst of
  one or more changes of the query text, each less than 500 time units after the one
  before: no fetch cycle starts during the burst, none starts before 500 time units have
  passed since the last change, and when they have passed exactly one cycle starts, dated
  500 time units after the last change, unless the final text equals the debounced query
  held before the burst, in which case none starts. A change of the engine or of the
  network code to a different value, and every change of the tags, starts a cycle at once.
  A tab change neither touches the timer nor starts a cycle.
\<close>

theorem query_is_debounced_filters_are_not:
  assumes "changes (q s) (map fst ks @ [str])" and "\<forall>d \<in> set (map snd ks). d < debounce_delay"
  shows "started (run s (typing ks @ [SetQ str])) = started s
       \<and> fetches (run s (typing ks @ [SetQ str])) = fetches s
       \<and> (\<forall>d. started (step (run s (typing ks @ [SetQ str])) (Tick d)) =
            (if d < debounce_delay \<or> str = debouncedQ s then started s
             else started s @ [(now s + sum_list (map snd ks) + debounce_delay, controllers s)]))
       \<and> (\<forall>e. e \<noteq> engine s \<longrightarrow>
            started (step s (SetEngine e)) = started s @ [(now s, controllers s)])
       \<and> (\<forall>l. l \<noteq> language s \<longrightarrow>
            started (step s (SetLanguage l)) = started s @ [(now s, controllers s)])
       \<and> (\<forall>v. started (step s (SetTags v)) = started s @ [(now s, controllers s)])
       \<and> (\<forall>v. timer (step s (SetTab v)) = timer s \<and> started (step s (SetTab v)) = started s)"
proof -
  let ?s1 = "run s (typing ks @ [SetQ str])"
  note t = typing_quiet[OF assms]
  from t have tm: "timer ?s1 = Some debounce_delay"
    and ts: "started ?s1 = started s" and tf: "fetches ?s1 = fetches s"
    and tc: "controllers ?s1 = controllers s" and tq: "q ?s1 = str"
    and td: "debouncedQ ?s1 = debouncedQ s"
    and tn: "now ?s1 = now s + sum_list (map snd ks)"
    by blast+
  have "started (step ?s1 (Tick d)) =
            (if d < debounce_delay \<or> str = debouncedQ s then started s
             else started s @ [(now s + sum_list (map snd ks) + debounce_delay, controllers s)])"
    for d
    unfolding step.simps started_timer_fires[OF tm] ts tc tq td tn ..
  moreover have "started (step s (SetEngine e)) = started s @ [(now s, controllers s)]"
    if "e \<noteq> engine s" for e
    using that by (simp add: setEngine_def fetchData_eq)
  moreover have "started (step s (SetLanguage l)) = started s @ [(now s, controllers s)]"
    if "l \<noteq> language s" for l
    using that by (simp add: setLanguage_def fetchData_eq)
  moreover have "started (step s (SetTags v)) = started s @ [(now s, controllers s)]" for v
    by (simp add: setTags_def fetchData_eq)
  moreover have "timer (step s (SetTab v)) = timer s \<and> started (step s (SetTab v)) = started s"
    for v
    by (simp add: setTab_def)
  ultimately show ?thesis using ts tf by blast
qed

theorem query_is_debounced_filters_are_not_witness:
  "changes (q mounted) [''f'', ''fa'', ''fai''] \<and> 100 < debounce_delay \<and> 200 < debounce_delay
   \<and> started (run mounted [SetQ ''f'', Tick 100, SetQ ''fa'', Tick 200, SetQ ''fai'']) = [(0, 0)]
   \<and> started (step (run mounted [SetQ ''f'', Tick 100, SetQ ''fa'', Tick 200, SetQ ''fai''])
         (Tick 499)) = [(0, 0)]
   \<and> started (step (run mounted [SetQ ''f'', Tick 100, SetQ ''fa'', Tick 200, SetQ ''fai''])
         (Tick 500)) = [(0, 0), (800, 1)]
   \<and> started (step mounted (SetEngine Es)) = [(0, 0), (0, 1)]"
proof -
  have h1: "changes (q mounted) (map fst [(''f'', 100), (''fa'', 200)] @ [''fai''])"
    by (simp add: app_defs)
  have h2: "\<forall>d \<in> set (map snd [(''f'', 100 :: nat), (''fa'', 200)]). d < debounce_delay"
    by (simp add: debounce_delay_def)
  have m: "started mounted = [(0, 0)]" "now mounted = 0" "controllers mounted = 1"
    "debouncedQ mounted = []" "engine mounted = Al"
    by (simp_all add: app_defs)
  have t: "typing [(''f'', 100), (''fa'', 200)] @ [SetQ ''fai'']
      = [SetQ ''f'', Tick 100, SetQ ''fa'', Tick 200, SetQ ''fai'']"
    by simp
  note T = query_is_debounced_filters_are_not[OF h1 h2, unfolded t m]
  from T have a: "started (run mounted [SetQ ''f'', Tick 100, SetQ ''fa'', Tick 200, SetQ ''fai''])
      = [(0, 0)]" by (rule conjunct1)
  from T have b: "started (step (run mounted [SetQ ''f'', Tick 100, SetQ ''fa'', Tick 200,
      SetQ ''fai'']) (Tick d)) =
        (if d < debounce_delay \<or> ''fai'' = [] then [(0, 0)]
         else [(0, 0)] @ [(0 + sum_list (map snd [(''f'', 100 :: nat), (''fa'', 200)])
                            + debounce_delay, 1)])" for d
    by blast
  from T have c: "Es \<noteq> Al \<longrightarrow> started (step mounted (SetEngine Es)) = [(0, 0)] @ [(0, 1)]"
    by blast
  from h1 a b[of 499] b[of 500] c show ?thesis
    by (simp add: debounce_delay_def)
qed

text \<open>
  The claim as stated fails for the filters and for a burst that ends where it began. Two
  changes of the engine at the same instant start two cycles, both at once; and typing a
  letter and deleting it again starts no cycle at all, 500 time units later or ever.
\<close>

theorem filter_changes_are_not_debounced:
  "started (run mounted [SetEngine Es, SetEngine Al]) = [(0, 0), (0, 1), (0, 2)]
   \<and> started (run mounted [SetQ ''a'', Tick 100, SetQ [], Tick 500]) = [(0, 0)]"
  by (simp add: app_defs)

subsection \<open>The empty query\<close>

text \<open>
  Claim C5. In every reachable state whose debounced query is empty after trimming, the
  fetch cycle does not clear anything and does not skip the fetch: it sets the loading
  flag, leaves the lists and counts as they are, and issues the two requests, for
  \<^verbatim>\<open>playlist\<close> and for \<^verbatim>\<open>media\<close>, with the empty query term and the current filters. The
  continuation in the branch for the empty query commits a successful result exactly as
  the continuation of the search branch does, and when both requests are answered the
  lists are the mapped records and the counts the totals of the two answers.
\<close>

theorem empty_query_browses_all:
  assumes "wf s" and "trim (debouncedQ s) = []"
  shows "fetches (fetchData s) = fetches s @
           [fetchOne_request (engine s) (language s) (tags s) Playlist [] (controllers s),
            fetchOne_request (engine s) (language s) (tags s) Media [] (controllers s)]
       \<and> view (fetchData s) = view s
       \<and> loading (fetchData s)
       \<and> most_recent (fetchData s) = controllers s
       \<and> pending (fetchData s) = abort_current s @ [new_cycle (controllers s) True]
       \<and> (\<forall>r. resume_browse (controllers s) (Inr r) = resume_search (controllers s) (Inr r))
       \<and> (\<forall>st1 d1 st2 d2.
             view (respond (controllers s) Media (Response st2 (Parsed d2))
                    (respond (controllers s) Playlist (Response st1 (Parsed d1)) (fetchData s)))
             = (\<lparr> series = total_of d1, episodes = total_of d2 \<rparr>,
                map mapApiToItem (results_of d1), map mapApiToItem (results_of d2)))"
proof (intro conjI allI)
  show "fetches (fetchData s) = fetches s @
           [fetchOne_request (engine s) (language s) (tags s) Playlist [] (controllers s),
            fetchOne_request (engine s) (language s) (tags s) Media [] (controllers s)]"
    using assms(2) by (simp add: fetchData_eq)
  show "view (fetchData s) = view s" by (simp add: fetchData_eq view_def)
  show "loading (fetchData s)" by (simp add: fetchData_eq)
  show "most_recent (fetchData s) = controllers s" by simp
  show "pending (fetchData s) = abort_current s @ [new_cycle (controllers s) True]"
    using assms(2) by (simp add: fetchData_eq)
  show "resume_browse (controllers s) (Inr r) = resume_search (controllers s) (Inr r)" for r
    by (simp add: resume_same fun_eq_iff)
  show "view (respond (controllers s) Media (Response st2 (Parsed d2))
                    (respond (controllers s) Playlist (Response st1 (Parsed d1)) (fetchData s)))
             = (\<lparr> series = total_of d1, episodes = total_of d2 \<rparr>,
                map mapApiToItem (results_of d1), map mapApiToItem (results_of d2))"
    for st1 d1 st2 d2
    by (rule fetchData_then_both_answers[OF assms(1)])
qed

theorem empty_query_browses_all_witness:
  "wf (mounted\<lparr> tags := [''hope''] \<rparr>)
   \<and> trim (debouncedQ (mounted\<lparr> tags := [''hope''] \<rparr>)) = []
   \<and> setTags [''hope''] mounted = fetchData (mounted\<lparr> tags := [''hope''] \<rparr>)
   \<and> fetches (setTags [''hope''] mounted) = fetches mounted @
       [\<lparr> rq_path = ''https://mbs-dev-api.trilogyapps.com/api/search/al'',
          rq_params = [(''q'', []), (''documentType'', ''playlist''), (''network'', ''en''),
                       (''tags'', ''hope''), (''limit'', ''500'')],
          rq_signal = 1 \<rparr>,
        \<lparr> rq_path = ''https://mbs-dev-api.trilogyapps.com/api/search/al'',
          rq_params = [(''q'', []), (''documentType'', ''media''), (''network'', ''en''),
                       (''tags'', ''hope''), (''limit'', ''500'')],
          rq_signal = 1 \<rparr>]
   \<and> view (respond 1 Media (reply [record_a, record_a] 42)
            (respond 1 Playlist (reply [record_a] 3) (setTags [''hope''] mounted)))
       = (\<lparr> series = 3, episodes = 42 \<rparr>,
          [mapApiToItem record_a], [mapApiToItem record_a, mapApiToItem record_a])"
proof -
  let ?s0 = "mounted\<lparr> tags := [''hope''] \<rparr>"
  let ?d1 = "Some \<lparr> r_message = ''ok'', r_data = Some \<lparr> d_engine = ''al'', d_limit = 500,
      d_page = 1, d_results = Some [record_a], d_total = Some 3 \<rparr> \<rparr>"
  let ?d2 = "Some \<lparr> r_message = ''ok'', r_data = Some \<lparr> d_engine = ''al'', d_limit = 500,
      d_page = 1, d_results = Some [record_a, record_a], d_total = Some 42 \<rparr> \<rparr>"
  have w: "wf ?s0" by (rule wf_frame[OF wf_mounted]) simp_all
  have t: "trim (debouncedQ ?s0) = []" by (simp add: app_defs)
  have c: "controllers ?s0 = 1" by (simp add: app_defs)
  have f: "engine ?s0 = Al" "language ?s0 = ''en''" "tags ?s0 = [''hope'']"
    "fetches ?s0 = fetches mounted"
    by (simp_all add: app_defs)
  note T = empty_query_browses_all[OF w t]
  from T have A: "fetches (fetchData ?s0) = fetches ?s0 @
           [fetchOne_request (engine ?s0) (language ?s0) (tags ?s0) Playlist [] (controllers ?s0),
            fetchOne_request (engine ?s0) (language ?s0) (tags ?s0) Media [] (controllers ?s0)]"
    by (rule conjunct1)
  have G: "view (respond (controllers ?s0) Media (Response 200 (Parsed ?d2))
                    (respond (controllers ?s0) Playlist (Response 200 (Parsed ?d1)) (fetchData ?s0)))
             = (\<lparr> series = total_of ?d1, episodes = total_of ?d2 \<rparr>,
                map mapApiToItem (results_of ?d1), map mapApiToItem (results_of ?d2))"
    by (rule T[THEN conjunct2, THEN conjunct2, THEN conjunct2, THEN conjunct2, THEN conjunct2,
          THEN conjunct2, rule_format])
  have v: "total_of ?d1 = 3" "total_of ?d2 = 42" "results_of ?d1 = [record_a]"
    "results_of ?d2 = [record_a, record_a]"
    by (simp_all add: total_of_def results_of_def)
  have r: "fetchOne_request Al ''en'' [''hope''] Playlist [] 1 =
       \<lparr> rq_path = ''https://mbs-dev-api.trilogyapps.com/api/search/al'',
          rq_params = [(''q'', []), (''documentType'', ''playlist''), (''network'', ''en''),
                       (''tags'', ''hope''), (''limit'', ''500'')],
          rq_signal = 1 \<rparr>"
    "fetchOne_request Al ''en'' [''hope''] Media [] 1 =
       \<lparr> rq_path = ''https://mbs-dev-api.trilogyapps.com/api/search/al'',
          rq_params = [(''q'', []), (''documentType'', ''media''), (''network'', ''en''),
                       (''tags'', ''hope''), (''limit'', ''500'')],
          rq_signal = 1 \<rparr>"
    by (simp_all add: fetchOne_request_def API_BASE_def)
  from A G w t show ?thesis
    unfolding c f v r by (simp add: setTags_def reply_def del: One_nat_def)
qed

subsection \<open>Switching tabs\<close>

text \<open>
  Claim C6. In every state, \<^verbatim>\<open>setTab\<close> changes the selected tab and nothing else: no
  request is issued and no cycle is started or aborted, neither count and neither held
  item list changes, the debounce timer is untouched, and what is rendered afterwards is
  the list already held for the selected tab.
\<close>

theorem setTab_changes_only_the_tab:
  "step s (SetTab v) = s\<lparr> tab := v \<rparr>
   \<and> fetches (step s (SetTab v)) = fetches s
   \<and> started (step s (SetTab v)) = started s
   \<and> pending (step s (SetTab v)) = pending s
   \<and> counts (step s (SetTab v)) = counts s
   \<and> seriesItems (step s (SetTab v)) = seriesItems s
   \<and> episodeItems (step s (SetTab v)) = episodeItems s
   \<and> timer (step s (SetTab v)) = timer s
   \<and> visible (step s (SetTab v)) = (if v = Tab_series then seriesItems s else episodeItems s)"
  by (simp add: setTab_def visible_def)

subsection \<open>The loading flag\<close>

text \<open>
  Every cycle calls \<^verbatim>\<open>setLoading(false)\<close> exactly once, when it settles: the cycles that
  have made the call are the cycles that have settled, each once.
\<close>

lemma set_false_by_step:
  assumes "set_false_by s = map fst (settled s)"
  shows "set_false_by (step s e) = map fst (settled (step s e))"
proof (cases e)
  case (Respond ac dt net)
  have "set_false_by (respond ac dt net s) = map fst (settled (respond ac dt net s))"
  proof (cases ac dt net s rule: respond_cases)
    case ignored
    with assms show ?thesis by simp
  next
    case (rejected c err)
    with assms show ?thesis by (simp add: settle_eq set_false_by_def)
  next
    case (resolved c v a b)
    with assms show ?thesis by (simp add: settle_eq set_false_by_def)
  next
    case (filled c v)
    with assms show ?thesis by (simp add: set_false_by_def)
  qed
  with Respond show ?thesis by simp
next
  case (Tick d)
  with assms show ?thesis
    by (simp add: tick_def Let_def fetchData_eq set_false_by_def split: option.splits)
qed (insert assms, simp_all add: setQ_def debounce_restart_def setTab_def setEngine_def
      setLanguage_def setTags_def handleCardClick_def handleCloseDialog_def fetchData_eq
      set_false_by_def)

lemma set_false_by_run: "set_false_by (run mounted evs) = map fst (settled (run mounted evs))"
proof (induction evs rule: rev_induct)
  case Nil
  show ?case by (simp add: run_def mounted_def fetchData_eq init_def set_false_by_def)
next
  case (snoc e evs)
  then show ?case by (simp add: run_snoc set_false_by_step)
qed

lemma loading_false_once:
  "distinct (set_false_by (run mounted evs))
   \<and> set (set_false_by (run mounted evs)) = fst ` set (settled (run mounted evs))"
  using wf_reachable[of evs] by (simp add: set_false_by_run wf_def)

text \<open>
  Claim C7 says that only the cycle owning the current slot sets the loading flag to
  false, and that the settlement of a superseded cycle never changes the flag set by a later
  one. The \<^verbatim>\<open>return\<close> for an \<^verbatim>\<open>AbortError\<close> sits inside \<^verbatim>\<open>catch\<close>, so \<^verbatim>\<open>finally\<close> still runs
  \<^verbatim>\<open>setLoading(false)\<close> for an aborted cycle. Here the engine is changed while the cycle of
  the mount is in flight: cycle 1 supersedes cycle 0 and sets the flag, then cycle 0
  settles with its abort and sets the flag to false while cycle 1 is still waiting.
\<close>

theorem superseded_cycle_resets_loading:
  "let s = run mounted [SetEngine Es, Respond 0 Playlist (reply [] 0)] in
     most_recent s = 1 \<and> signals s = [1] \<and> settled s = [(0, Inl AbortError)]
     \<and> loading_calls s = [(0, True), (1, True), (0, False)] \<and> \<not> loading s"
  by (simp add: app_defs reply_def)

subsection \<open>The request of \<^verbatim>\<open>fetchOne\<close>\<close>

text \<open>
  Claim C8. For every category, query term and filters, the request that \<^verbatim>\<open>fetchOne\<close>
  issues goes to the search path of the selected engine and carries exactly these
  parameters, in this order: the query term \<^verbatim>\<open>q\<close>, the \<^verbatim>\<open>documentType\<close>, the \<^verbatim>\<open>network\<close>
  code when one is selected, the \<^verbatim>\<open>tags\<close> joined by commas when there is at least one tag,
  and the fixed \<^verbatim>\<open>limit\<close> of 500; it is bound to the abort signal of its cycle.
\<close>

theorem fetchOne_request_carries:
  "rq_path (fetchOne_request eng lang tgs documentType qv ac) =
     API_BASE @ ''/search/'' @ engine_id eng
   \<and> rq_params (fetchOne_request eng lang tgs documentType qv ac) =
       [(''q'', qv), (''documentType'', document_type_name documentType)]
       @ (if lang = [] then [] else [(''network'', lang)])
       @ (if tgs = [] then [] else [(''tags'', join '','' tgs)])
       @ [(''limit'', ''500'')]
   \<and> rq_signal (fetchOne_request eng lang tgs documentType qv ac) = ac"
  by (simp add: fetchOne_request_def)

theorem fetchOne_request_carries_witness:
  "fetchOne_request Es ''en'' [''faith'', ''hope''] Media ''icon'' 3 =
     \<lparr> rq_path = ''https://mbs-dev-api.trilogyapps.com/api/search/es'',
       rq_params = [(''q'', ''icon''), (''documentType'', ''media''), (''network'', ''en''),
                    (''tags'', ''faith,hope''), (''limit'', ''500'')],
       rq_signal = 3 \<rparr>"
  using fetchOne_request_carries[of Es "''en''" "[''faith'', ''hope'']" Media "''icon''" 3]
  by (simp add: API_BASE_def fetchOne_request_def)

subsection \<open>The detail dialog\<close>

text \<open>
  Claim C9. In every state, closing the dialog changes the open flag and nothing else, so
  the held record stays; no event other than a click on a card changes the held record;
  a click on a card replaces it by the raw API record of the clicked item, or by the item
  itself when the item has no raw record, and opens the dialog; so clicking the same card
  after closing shows the same record again.
\<close>

theorem closing_keeps_the_record:
  "handleCloseDialog s = s\<lparr> dialogOpen := False \<rparr>
   \<and> dialogData (step s CloseDialog) = dialogData s
   \<and> (\<forall>e. (\<forall>it. e \<noteq> CardClick it) \<longrightarrow> dialogData (step s e) = dialogData s)
   \<and> dialogData (step s (CardClick it)) =
       (case it_raw it of Some r \<Rightarrow> Raw_record r | None \<Rightarrow> Minimal_item it)
   \<and> dialogOpen (step s (CardClick it))
   \<and> dialogData (step (step (step s (CardClick it)) CloseDialog) (CardClick it))
       = dialogData (step s (CardClick it))"
  using dialogData_step[of _ s]
  by (simp add: handleCloseDialog_def handleCardClick_def)

theorem closing_keeps_the_record_witness:
  "(\<forall>it. Respond 0 Media Transport_failure \<noteq> CardClick it)
   \<and> dialogData (step (step mounted (CardClick (mapApiToItem record_a))) CloseDialog)
       = Raw_record record_a
   \<and> \<not> dialogOpen (step (step mounted (CardClick (mapApiToItem record_a))) CloseDialog)
   \<and> dialogData (step (step (step mounted (CardClick (mapApiToItem record_a))) CloseDialog)
        (Respond 0 Media Transport_failure)) = Raw_record record_a"
proof -
  let ?s = "step mounted (CardClick (mapApiToItem record_a))"
  have a: "dialogData ?s = Raw_record record_a"
    using closing_keeps_the_record[of mounted "mapApiToItem record_a"]
    by (simp add: mapApiToItem_def)
  have b: "dialogData (step ?s CloseDialog) = dialogData ?s"
    "handleCloseDialog ?s = ?s\<lparr> dialogOpen := False \<rparr>"
    using closing_keeps_the_record[of ?s] by blast+
  have c: "dialogData (step (step ?s CloseDialog) (Respond 0 Media Transport_failure))
      = dialogData (step ?s CloseDialog)"
    using closing_keeps_the_record[of "step ?s CloseDialog"] by blast
  from a b c show ?thesis by simp
qed

subsection \<open>Missing fields\<close>

text \<open>
  Claim C10. For every response whose body parses, \<^verbatim>\<open>fetchOne\<close> returns a result and
  does not throw, whatever is missing: the mapped list is empty when the parsed value, its
  \<^verbatim>\<open>data\<close> object or the \<^verbatim>\<open>results\<close> array is missing, and the total is 0 when the parsed
  value, its \<^verbatim>\<open>data\<close> object or the \<^verbatim>\<open>total\<close> field is missing. Mapping an API record
  gives the empty string for a missing description and keeps the unmodified record in
  \<^verbatim>\<open>raw\<close>.
\<close>

theorem fetchOne_defaults:
  "(\<exists>mapped total. fetchOne_result False (Response status (Parsed data)) = Inr (mapped, total)
       \<and> (lacks_results data \<longrightarrow> mapped = [])
       \<and> (lacks_total data \<longrightarrow> total = 0))
   \<and> (ai_description ai = None \<longrightarrow> it_description (mapApiToItem ai) = Some [])
   \<and> it_raw (mapApiToItem ai) = Some ai"
proof -
  have "lacks_results data \<Longrightarrow> results_of data = []"
    by (simp add: lacks_results_def results_of_def split: option.splits)
  moreover have "lacks_total data \<Longrightarrow> total_of data = 0"
    by (simp add: lacks_total_def total_of_def split: option.splits)
  ultimately show ?thesis by (simp add: mapApiToItem_def)
qed

theorem fetchOne_defaults_witness:
  "lacks_results (Some \<lparr> r_message = ''ok'', r_data = None \<rparr>)
   \<and> lacks_total (Some \<lparr> r_message = ''ok'', r_data = None \<rparr>)
   \<and> fetchOne_result False (Response 200 (Parsed (Some \<lparr> r_message = ''ok'', r_data = None \<rparr>)))
       = Inr ([], 0)
   \<and> ai_description record_a = None
   \<and> it_description (mapApiToItem record_a) = Some []
   \<and> it_raw (mapApiToItem record_a) = Some record_a"
  using fetchOne_defaults[of 200 "Some \<lparr> r_message = ''ok'', r_data = None \<rparr>" record_a]
  by (auto simp add: lacks_results_def lacks_total_def record_a_def)

end
